theory Spec2Isabelle
  imports Complex_Main "HOL-Library.Product_Lexorder" "HOL-Library.Multiset"
begin

section \<open>Python values and string primitives\<close>

text \<open>
  The deduplication module (\<^verbatim>\<open>deduplication_module.py\<close>, class \<^verbatim>\<open>AHRQDeduplicator\<close>)
  works on rows of two pandas tables. A cell of such a row is a text, an integer, the
  missing-value marker NaN (a float) or None; \<^verbatim>\<open>row.get(k, d)\<close> on a table without
  column \<^verbatim>\<open>k\<close> gives the default, which is modelled by an optional cell.

  Texts are modelled as \<open>string\<close>; the character classes below are those of Python's
  \<^verbatim>\<open>str\<close> methods and of \<^verbatim>\<open>re\<close> on the ASCII range (characters from 128 on belong to
  no class and have no lower-case form here).
\<close>

datatype cell = Str string | IntV int | NaN | PyNone

datatype py_error = IndexError | AttributeError | KeyError | OverflowError

text \<open>\<^verbatim>\<open>pd.isna(x)\<close> and the truth value of a cell in \<^verbatim>\<open>if x:\<close> (NaN is a non-zero float).\<close>

fun isna :: "cell \<Rightarrow> bool" where
  "isna NaN = True"
| "isna PyNone = True"
| "isna (Str s) = False"
| "isna (IntV n) = False"

fun truthy :: "cell \<Rightarrow> bool" where
  "truthy (Str s) = (s \<noteq> [])"
| "truthy (IntV n) = (n \<noteq> 0)"
| "truthy NaN = True"
| "truthy PyNone = False"

definition digit_char :: "nat \<Rightarrow> char" where
  "digit_char d = char_of (48 + d)"

fun show_nat :: "nat \<Rightarrow> string" where
  "show_nat n = (if n < 10 then [digit_char n] else show_nat (n div 10) @ [digit_char (n mod 10)])"

declare show_nat.simps [simp del]

definition show_int :: "int \<Rightarrow> string" where
  "show_int i = (if i < 0 then CHR ''-'' # show_nat (nat (- i)) else show_nat (nat i))"

text \<open>\<^verbatim>\<open>str(x)\<close>.\<close>

fun py_str :: "cell \<Rightarrow> string" where
  "py_str (Str s) = s"
| "py_str (IntV n) = show_int n"
| "py_str NaN = ''nan''"
| "py_str PyNone = ''None''"

definition is_space :: "char \<Rightarrow> bool" where
  "is_space c = (let n = (of_char c :: nat) in (9 \<le> n \<and> n \<le> 13) \<or> (28 \<le> n \<and> n \<le> 32))"

definition is_digit :: "char \<Rightarrow> bool" where
  "is_digit c = (let n = (of_char c :: nat) in 48 \<le> n \<and> n \<le> 57)"

definition is_upper :: "char \<Rightarrow> bool" where
  "is_upper c = (let n = (of_char c :: nat) in 65 \<le> n \<and> n \<le> 90)"

definition is_lower :: "char \<Rightarrow> bool" where
  "is_lower c = (let n = (of_char c :: nat) in 97 \<le> n \<and> n \<le> 122)"

text \<open>The class \<^verbatim>\<open>\w\<close> of \<^verbatim>\<open>re\<close>: letters, digits and the underscore.\<close>

definition is_word :: "char \<Rightarrow> bool" where
  "is_word c = (is_digit c \<or> is_upper c \<or> is_lower c \<or> c = CHR ''_'')"

definition lower_char :: "char \<Rightarrow> char" where
  "lower_char c = (if is_upper c then char_of ((of_char c :: nat) + 32) else c)"

text \<open>\<^verbatim>\<open>s.lower()\<close>, \<^verbatim>\<open>s.strip()\<close>, \<^verbatim>\<open>s.split()\<close>, \<^verbatim>\<open>' '.join(ws)\<close>.\<close>

definition lower :: "string \<Rightarrow> string" where
  "lower s = map lower_char s"

definition strip :: "string \<Rightarrow> string" where
  "strip s = rev (dropWhile is_space (rev (dropWhile is_space s)))"

text \<open>
  \<open>split_from cur s\<close> scans \<open>s\<close> with the reversed letters of the word being read in
  \<open>cur\<close>; a word ends at a whitespace character or at the end of the text.
\<close>

fun split_from :: "string \<Rightarrow> string \<Rightarrow> string list" where
  "split_from cur [] = (if cur = [] then [] else [rev cur])"
| "split_from cur (c # cs) =
     (if is_space c then (if cur = [] then [] else [rev cur]) @ split_from [] cs
      else split_from (c # cur) cs)"

definition split :: "string \<Rightarrow> string list" where
  "split s = split_from [] s"

fun join_space :: "string list \<Rightarrow> string" where
  "join_space [] = []"
| "join_space [w] = w"
| "join_space (w # v # ws) = w @ CHR '' '' # join_space (v # ws)"

section \<open>The normalisers\<close>

subsection \<open>\<^verbatim>\<open>_normalize_doi\<close>\<close>

text \<open>
  The class \<^verbatim>\<open>[/\.\-\w]\<close> and the pattern \<^verbatim>\<open>10\.\d{4,}[/\.\-\w]+\<close> matched at the start of a
  text. Every digit is in the class, so the greedy match with backtracking covers
  \<^verbatim>\<open>10.\<close> and the whole run of class characters after it, and exists when that run starts
  with four digits and has a fifth character.
\<close>

definition is_doi_char :: "char \<Rightarrow> bool" where
  "is_doi_char c = (c = CHR ''/'' \<or> c = CHR ''.'' \<or> c = CHR ''-'' \<or> is_word c)"

fun match_lit :: "string \<Rightarrow> string \<Rightarrow> string option" where
  "match_lit [] s = Some s"
| "match_lit (p # ps) [] = None"
| "match_lit (p # ps) (c # cs) = (if p = c then match_lit ps cs else None)"

definition match_doi_core :: "string \<Rightarrow> string option" where
  "match_doi_core s =
     (case match_lit ''10.'' s of
        None \<Rightarrow> None
      | Some rest \<Rightarrow>
          (let run = takeWhile is_doi_char rest in
           if 4 \<le> length (takeWhile is_digit rest) \<and> 5 \<le> length run
           then Some (''10.'' @ run) else None))"

text \<open>
  A pattern of the list is a literal prefix followed by the DOI pattern, in a group when
  the prefix is not empty. \<open>match_at\<close> gives \<^verbatim>\<open>(group(0), group(1))\<close> of a match at the start
  of the text, \<open>re_search\<close> that of the leftmost match.
\<close>

definition match_at :: "string \<Rightarrow> string \<Rightarrow> (string \<times> string) option" where
  "match_at pre s =
     (case match_lit pre s of
        None \<Rightarrow> None
      | Some rest \<Rightarrow> (case match_doi_core rest of None \<Rightarrow> None | Some d \<Rightarrow> Some (pre @ d, d)))"

fun re_search :: "string \<Rightarrow> string \<Rightarrow> (string \<times> string) option" where
  "re_search pre [] = match_at pre []"
| "re_search pre (c # cs) =
     (case match_at pre (c # cs) of Some m \<Rightarrow> Some m | None \<Rightarrow> re_search pre cs)"

text \<open>
  The loop over the three patterns: the first one that matches decides. The test
  \<^verbatim>\<open>match.groups() and '/' in pattern and 'doi.org' in pattern\<close> holds for the two patterns
  with a resolver prefix and fails for the bare one, which has no group.
\<close>

fun search_patterns :: "string list \<Rightarrow> string \<Rightarrow> string option" where
  "search_patterns [] s = None"
| "search_patterns (pre # ps) s =
     (case re_search pre s of
        Some (g0, g1) \<Rightarrow> Some (if pre \<noteq> [] then g1 else g0)
      | None \<Rightarrow> search_patterns ps s)"

definition doi_patterns :: "string list" where
  "doi_patterns = ['''', ''doi.org/'', ''dx.doi.org/'']"

definition normalize_doi :: "cell \<Rightarrow> string" where
  "normalize_doi doi =
     (if isna doi then ''''
      else (let doi_str = strip (lower (py_str doi)) in
            case search_patterns doi_patterns doi_str of
              Some d \<Rightarrow> d
            | None \<Rightarrow> doi_str))"

subsection \<open>\<^verbatim>\<open>_normalize_title\<close>\<close>

text \<open>\<^verbatim>\<open>re.sub(r'[^\w\s]', ' ', t)\<close> and \<^verbatim>\<open>re.sub(r'\s+', ' ', t)\<close>.\<close>

definition sub_special :: "string \<Rightarrow> string" where
  "sub_special s = map (\<lambda>c. if is_word c \<or> is_space c then c else CHR '' '') s"

function sub_spaces :: "string \<Rightarrow> string" where
  "sub_spaces [] = []"
| "sub_spaces (c # cs) =
     (if is_space c then CHR '' '' # sub_spaces (dropWhile is_space cs) else c # sub_spaces cs)"
  by pat_completeness auto
termination
  by (relation "measure length") (auto simp: less_Suc_eq_le length_dropWhile_le)

definition stop_words :: "string list" where
  "stop_words = [''the'', ''a'', ''an'', ''and'', ''or'', ''but'', ''in'', ''on'', ''at'',
                 ''to'', ''for'', ''of'', ''with'', ''by'']"

definition normalize_title :: "cell \<Rightarrow> string" where
  "normalize_title title =
     (if isna title then ''''
      else (let t = sub_spaces (sub_special (lower (py_str title)));
                words = split t
            in strip (join_space [w \<leftarrow> words. w \<notin> set stop_words])))"

subsection \<open>\<^verbatim>\<open>_extract_first_author\<close>\<close>

text \<open>
  \<^verbatim>\<open>s.split(sep)[0]\<close> is the text before the first separator. \<^verbatim>\<open>s.split()[0]\<close> raises
  IndexError when \<^verbatim>\<open>s\<close> has no word, and so does the function when the author text is
  not empty and all whitespace.
\<close>

definition before_sep :: "char \<Rightarrow> string \<Rightarrow> string" where
  "before_sep sep s = takeWhile (\<lambda>c. c \<noteq> sep) s"

text \<open>The block "try different separators": the first author's text, or the IndexError.\<close>

definition first_segment :: "string \<Rightarrow> py_error + string" where
  "first_segment authors_str =
     (if CHR '';'' \<in> set authors_str then Inr (before_sep CHR '';'' authors_str)
      else if CHR '','' \<in> set authors_str \<and> 1 < count_list authors_str CHR '',''
      then Inr (before_sep CHR '','' authors_str)
      else if authors_str \<noteq> []
      then (case split authors_str of [] \<Rightarrow> Inl IndexError | w # ws \<Rightarrow> Inr w)
      else Inr [])"

text \<open>The block "extract last name (assume it's the last word)".\<close>

definition last_word :: "string \<Rightarrow> string" where
  "last_word first_author =
     (if first_author \<noteq> []
      then (let parts = split (strip first_author) in if parts \<noteq> [] then last parts else [])
      else [])"

definition extract_first_author :: "cell \<Rightarrow> py_error + string" where
  "extract_first_author authors =
     (if isna authors then Inr []
      else (case first_segment (py_str authors) of
              Inl e \<Rightarrow> Inl e
            | Inr first_author \<Rightarrow> Inr (last_word first_author)))"

section \<open>The similarity scorer\<close>

subsection \<open>\<^verbatim>\<open>difflib.SequenceMatcher(None, a, b).ratio()\<close>\<close>

text \<open>
  The standard library's matcher, with no junk predicate and the default
  \<^verbatim>\<open>autojunk=True\<close>. \<open>b2j b x\<close> is \<^verbatim>\<open>b2j.get(x, [])\<close> after \<^verbatim>\<open>__chain_b\<close>: the ascending
  positions of \<open>x\<close> in \<open>b\<close>, and nothing for a "popular" element (one with more than
  \<^verbatim>\<open>n // 100 + 1\<close> occurrences in a \<open>b\<close> of 200 or more elements), whose entry is deleted.
\<close>

definition b2j :: "string \<Rightarrow> char \<Rightarrow> nat list" where
  "b2j b x =
     (let n = length b; idxs = [j \<leftarrow> [0..<n]. b ! j = x]
      in if 200 \<le> n \<and> n div 100 + 1 < length idxs then [] else idxs)"

text \<open>
  The inner loop of \<^verbatim>\<open>find_longest_match\<close> over the positions \<open>j\<close> of \<^verbatim>\<open>a[i]\<close> in \<open>b\<close>.
  The dictionary \<^verbatim>\<open>j2len\<close> is only read by \<^verbatim>\<open>j2len.get(j-1, 0)\<close>, so it is a function with
  value 0 where the dictionary has no key; \<^verbatim>\<open>j-1\<close> is no key for \<open>j = 0\<close>.
  \<^verbatim>\<open>i-k+1\<close> is \<open>Suc i - k\<close>: \<open>k\<close> never exceeds \<open>i + 1\<close> (lemma \<open>dp_inv\<close>).
\<close>

type_synonym dp_state = "(nat \<Rightarrow> nat) \<times> nat \<times> nat \<times> nat"

fun scan_row :: "nat \<Rightarrow> nat \<Rightarrow> nat \<Rightarrow> (nat \<Rightarrow> nat) \<Rightarrow> nat list \<Rightarrow> dp_state \<Rightarrow> dp_state" where
  "scan_row i blo bhi j2len [] st = st"
| "scan_row i blo bhi j2len (j # js) (newj2len, besti, bestj, bestsize) =
     (if j < blo then scan_row i blo bhi j2len js (newj2len, besti, bestj, bestsize)
      else if bhi \<le> j then (newj2len, besti, bestj, bestsize)
      else (let k = (case j of 0 \<Rightarrow> 0 | Suc j' \<Rightarrow> j2len j') + 1
            in if bestsize < k
               then scan_row i blo bhi j2len js (newj2len(j := k), Suc i - k, Suc j - k, k)
               else scan_row i blo bhi j2len js (newj2len(j := k), besti, bestj, bestsize)))"

definition row_step :: "string \<Rightarrow> string \<Rightarrow> nat \<Rightarrow> nat \<Rightarrow> nat \<Rightarrow> dp_state \<Rightarrow> dp_state" where
  "row_step a b blo bhi i st =
     (case st of (j2len, besti, bestj, bestsize) \<Rightarrow>
        scan_row i blo bhi j2len (b2j b (a ! i)) (\<lambda>j. 0, besti, bestj, bestsize))"

definition longest_dp :: "string \<Rightarrow> string \<Rightarrow> nat \<Rightarrow> nat \<Rightarrow> nat \<Rightarrow> nat \<Rightarrow> dp_state" where
  "longest_dp a b alo ahi blo bhi = fold (row_step a b blo bhi) [alo..<ahi] (\<lambda>j. 0, alo, blo, 0)"

text \<open>
  The two loops that extend the block over equal elements on both sides. The set
  \<^verbatim>\<open>bjunk\<close> is empty, so \<^verbatim>\<open>isbjunk\<close> is false everywhere and the two further loops, which
  extend over junk only, do nothing.
\<close>

function extend_left :: "string \<Rightarrow> string \<Rightarrow> nat \<Rightarrow> nat \<Rightarrow> nat \<times> nat \<times> nat \<Rightarrow> nat \<times> nat \<times> nat" where
  "extend_left a b alo blo (besti, bestj, bestsize) =
     (if alo < besti \<and> blo < bestj \<and> a ! (besti - 1) = b ! (bestj - 1)
      then extend_left a b alo blo (besti - 1, bestj - 1, bestsize + 1)
      else (besti, bestj, bestsize))"
  by pat_completeness auto
termination
  by (relation "measure (\<lambda>(a, b, alo, blo, besti, bestj, bestsize). besti)") auto

function extend_right :: "string \<Rightarrow> string \<Rightarrow> nat \<Rightarrow> nat \<Rightarrow> nat \<times> nat \<times> nat \<Rightarrow> nat \<times> nat \<times> nat" where
  "extend_right a b ahi bhi (besti, bestj, bestsize) =
     (if besti + bestsize < ahi \<and> bestj + bestsize < bhi
         \<and> a ! (besti + bestsize) = b ! (bestj + bestsize)
      then extend_right a b ahi bhi (besti, bestj, bestsize + 1)
      else (besti, bestj, bestsize))"
  by pat_completeness auto
termination
  by (relation "measure (\<lambda>(a, b, ahi, bhi, besti, bestj, bestsize). ahi - (besti + bestsize))") auto

declare extend_left.simps [simp del] extend_right.simps [simp del]

definition find_longest_match :: "string \<Rightarrow> string \<Rightarrow> nat \<Rightarrow> nat \<Rightarrow> nat \<Rightarrow> nat \<Rightarrow> nat \<times> nat \<times> nat" where
  "find_longest_match a b alo ahi blo bhi =
     (case longest_dp a b alo ahi blo bhi of (j2len, besti, bestj, bestsize) \<Rightarrow>
        extend_right a b ahi bhi (extend_left a b alo blo (besti, bestj, bestsize)))"

text \<open>
  Where the block lies: \<^verbatim>\<open>alo <= i <= i+k <= ahi\<close> and \<^verbatim>\<open>blo <= j <= j+k <= bhi\<close>, and
  \<^verbatim>\<open>(alo, blo, 0)\<close> when nothing matches. The worklist loop below terminates by it.
\<close>

definition j2len_ok :: "nat \<Rightarrow> nat \<Rightarrow> nat \<Rightarrow> (nat \<Rightarrow> nat) \<Rightarrow> bool" where
  "j2len_ok rows blo bhi f = (\<forall>j. f j \<le> rows \<and> f j \<le> Suc j - blo \<and> (0 < f j \<longrightarrow> j < bhi))"

definition best_ok :: "nat \<Rightarrow> nat \<Rightarrow> nat \<Rightarrow> nat \<Rightarrow> nat \<times> nat \<times> nat \<Rightarrow> bool" where
  "best_ok alo ahi blo bhi m =
     (case m of (i, j, k) \<Rightarrow>
        alo \<le> i \<and> blo \<le> j \<and> (if k = 0 then i = alo \<and> j = blo else i + k \<le> ahi \<and> j + k \<le> bhi))"

lemma scan_row_inv:
  assumes "j2len_ok (i - alo) blo bhi j2len" "alo \<le> i"
    and "j2len_ok (Suc i - alo) blo bhi new" "best_ok alo (Suc i) blo bhi (bi, bj, bs)"
    and "scan_row i blo bhi j2len js (new, bi, bj, bs) = (new', bi', bj', bs')"
  shows "j2len_ok (Suc i - alo) blo bhi new' \<and> best_ok alo (Suc i) blo bhi (bi', bj', bs')"
  using assms(3-)
proof (induction js arbitrary: new bi bj bs)
  case Nil
  then show ?case by simp
next
  case (Cons j js)
  show ?case
  proof (cases "j < blo \<or> bhi \<le> j")
    case True
    with Cons show ?thesis by (auto split: if_splits)
  next
    case False
    define k where "k = (case j of 0 \<Rightarrow> 0 | Suc j' \<Rightarrow> j2len j') + 1"
    have k1: "k \<le> Suc i - alo"
      using assms(1,2) by (auto simp: k_def j2len_ok_def Suc_diff_le split: nat.splits)
    have k2: "k \<le> Suc j - blo"
    proof (cases j)
      case 0
      with False show ?thesis by (simp add: k_def)
    next
      case (Suc j')
      have "j2len j' \<le> Suc j' - blo" using assms(1) by (simp add: j2len_ok_def)
      with Suc False show ?thesis by (simp add: k_def, arith)
    qed
    have k0: "0 < k" by (simp add: k_def)
    have newok: "j2len_ok (Suc i - alo) blo bhi (new(j := k))"
      using Cons.prems(1) k1 k2 False by (auto simp: j2len_ok_def)
    show ?thesis
    proof (cases "bs < k")
      case True
      have b: "best_ok alo (Suc i) blo bhi (Suc i - k, Suc j - k, k)"
        using k1 k2 k0 False assms(2) by (auto simp: best_ok_def)
      from Cons.prems(3) False True
      have "scan_row i blo bhi j2len js (new(j := k), Suc i - k, Suc j - k, k) = (new', bi', bj', bs')"
        by (simp add: k_def Let_def)
      from Cons.IH[OF newok b this] show ?thesis .
    next
      case nb: False
      from Cons.prems(3) False nb
      have "scan_row i blo bhi j2len js (new(j := k), bi, bj, bs) = (new', bi', bj', bs')"
        by (simp add: k_def Let_def)
      from Cons.IH[OF newok Cons.prems(2) this] show ?thesis .
    qed
  qed
qed

lemma best_ok_mono: "best_ok alo m blo bhi x \<Longrightarrow> m \<le> m' \<Longrightarrow> best_ok alo m' blo bhi x"
  by (auto simp: best_ok_def split: prod.splits)

lemma dp_inv_aux:
  assumes "fold (row_step a b blo bhi) [alo..<alo + n] (\<lambda>j. 0, alo, blo, 0) = (f, bi, bj, bs)"
  shows "j2len_ok n blo bhi f \<and> best_ok alo (alo + n) blo bhi (bi, bj, bs)"
  using assms
proof (induction n arbitrary: f bi bj bs)
  case 0
  then show ?case by (auto simp: j2len_ok_def best_ok_def)
next
  case (Suc n)
  obtain f0 bi0 bj0 bs0 where st: "fold (row_step a b blo bhi) [alo..<alo + n] (\<lambda>j. 0, alo, blo, 0) = (f0, bi0, bj0, bs0)"
    by (metis prod_cases4)
  from Suc.IH[OF st] have ih: "j2len_ok n blo bhi f0" "best_ok alo (alo + n) blo bhi (bi0, bj0, bs0)" by auto
  from Suc.prems have "row_step a b blo bhi (alo + n)
      (fold (row_step a b blo bhi) [alo..<alo + n] (\<lambda>j. 0, alo, blo, 0)) = (f, bi, bj, bs)"
    by simp
  then have step: "scan_row (alo + n) blo bhi f0 (b2j b (a ! (alo + n))) (\<lambda>j. 0, bi0, bj0, bs0) = (f, bi, bj, bs)"
    unfolding st by (simp add: row_step_def)
  have z: "j2len_ok (Suc (alo + n) - alo) blo bhi (\<lambda>j. 0)" by (simp add: j2len_ok_def)
  have "j2len_ok (Suc (alo + n) - alo) blo bhi f \<and> best_ok alo (Suc (alo + n)) blo bhi (bi, bj, bs)"
    by (rule scan_row_inv[where j2len = f0 and new = "\<lambda>j. 0", OF _ _ z _ step])
       (use ih in \<open>auto intro: best_ok_mono\<close>)
  then show ?case by simp
qed

lemma dp_inv:
  assumes "longest_dp a b alo ahi blo bhi = (f, bi, bj, bs)"
  shows "best_ok alo ahi blo bhi (bi, bj, bs)"
proof (cases "alo \<le> ahi")
  case True
  then obtain n where "ahi = alo + n" using le_Suc_ex by blast
  with assms dp_inv_aux[of a b blo bhi alo n f bi bj bs] show ?thesis
    by (simp add: longest_dp_def)
next
  case False
  with assms show ?thesis by (auto simp: longest_dp_def best_ok_def)
qed

lemma extend_left_ok:
  "best_ok alo ahi blo bhi m \<Longrightarrow> best_ok alo ahi blo bhi (extend_left a b alo blo m)"
proof (induction a b alo blo m rule: extend_left.induct)
  case (1 a b alo blo besti bestj bestsize)
  show ?case
  proof (cases "alo < besti \<and> blo < bestj \<and> a ! (besti - 1) = b ! (bestj - 1)")
    case True
    have "best_ok alo ahi blo bhi (besti - 1, bestj - 1, bestsize + 1)"
      using "1.prems" True by (auto simp: best_ok_def split: if_splits)
    from "1.IH"[OF True this] True show ?thesis
      by (subst extend_left.simps) simp
  next
    case False
    show ?thesis
      by (subst extend_left.simps) (use False "1.prems" in auto)
  qed
qed

lemma extend_right_ok:
  "best_ok alo ahi blo bhi m \<Longrightarrow> best_ok alo ahi blo bhi (extend_right a b ahi bhi m)"
proof (induction a b ahi bhi m rule: extend_right.induct)
  case (1 a b ahi bhi besti bestj bestsize)
  show ?case
  proof (cases "besti + bestsize < ahi \<and> bestj + bestsize < bhi
         \<and> a ! (besti + bestsize) = b ! (bestj + bestsize)")
    case True
    have "best_ok alo ahi blo bhi (besti, bestj, bestsize + 1)"
      using "1.prems" True by (auto simp: best_ok_def split: if_splits)
    from "1.IH"[OF True this] True show ?thesis
      by (subst extend_right.simps) simp
  next
    case False
    show ?thesis
      by (subst extend_right.simps) (use False "1.prems" in auto)
  qed
qed

lemma find_longest_match_ok:
  "best_ok alo ahi blo bhi (find_longest_match a b alo ahi blo bhi)"
proof -
  obtain f bi bj bs where dp: "longest_dp a b alo ahi blo bhi = (f, bi, bj, bs)"
    by (metis prod_cases4)
  from dp_inv[OF dp] show ?thesis
    by (simp add: find_longest_match_def dp extend_left_ok extend_right_ok)
qed

text \<open>
  \<^verbatim>\<open>get_matching_blocks\<close>: the worklist loop (the list's head is the end of the Python
  list, where \<^verbatim>\<open>pop\<close> and \<^verbatim>\<open>append\<close> work), the sort of the triples, the loop that merges
  adjacent blocks, and the closing dummy triple.
\<close>

definition queue_weight :: "(nat \<times> nat \<times> nat \<times> nat) list \<Rightarrow> nat" where
  "queue_weight queue = (\<Sum>(alo, ahi, blo, bhi) \<leftarrow> queue. 2 * (ahi - alo) + 1)"

function blocks_loop :: "string \<Rightarrow> string \<Rightarrow> (nat \<times> nat \<times> nat \<times> nat) list
    \<Rightarrow> (nat \<times> nat \<times> nat) list \<Rightarrow> (nat \<times> nat \<times> nat) list" where
  "blocks_loop a b [] matching_blocks = matching_blocks"
| "blocks_loop a b ((alo, ahi, blo, bhi) # queue) matching_blocks =
     (case find_longest_match a b alo ahi blo bhi of (i, j, k) \<Rightarrow>
        if k \<noteq> 0
        then blocks_loop a b
               ((if i + k < ahi \<and> j + k < bhi then [(i + k, ahi, j + k, bhi)] else [])
                @ (if alo < i \<and> blo < j then [(alo, i, blo, j)] else []) @ queue)
               (matching_blocks @ [(i, j, k)])
        else blocks_loop a b queue matching_blocks)"
  by pat_completeness auto
termination
  apply (relation "measure (\<lambda>(a, b, queue, mb). queue_weight queue)")
  apply simp
  subgoal for a b alo ahi blo bhi
    using find_longest_match_ok[of alo ahi blo bhi a b]
    by (auto simp: queue_weight_def best_ok_def)
  subgoal by (simp add: queue_weight_def)
  done

declare blocks_loop.simps [simp del]

fun merge_adjacent :: "nat \<times> nat \<times> nat \<Rightarrow> (nat \<times> nat \<times> nat) list \<Rightarrow> (nat \<times> nat \<times> nat) list" where
  "merge_adjacent (i1, j1, k1) [] = (if k1 \<noteq> 0 then [(i1, j1, k1)] else [])"
| "merge_adjacent (i1, j1, k1) ((i2, j2, k2) # rest) =
     (if i1 + k1 = i2 \<and> j1 + k1 = j2 then merge_adjacent (i1, j1, k1 + k2) rest
      else (if k1 \<noteq> 0 then [(i1, j1, k1)] else []) @ merge_adjacent (i2, j2, k2) rest)"

definition get_matching_blocks :: "string \<Rightarrow> string \<Rightarrow> (nat \<times> nat \<times> nat) list" where
  "get_matching_blocks a b =
     (let la = length a; lb = length b;
          matching_blocks = sort (blocks_loop a b [(0, la, 0, lb)] [])
      in merge_adjacent (0, 0, 0) matching_blocks @ [(la, lb, 0)])"

text \<open>
  The score is a Python float in the source. The model computes it in the reals, so the
  rounding of the float operations (a relative error of about \<open>10\<^sup>-\<^sup>1\<^sup>6\<close>) is left out.
  An equation between two differently computed scores can therefore hold here and fail in the
  last digit of the floats; the statements below are bounds, equalities of values computed by
  the same operations on the same arguments, and the values 100, 70, 10 and 20, which the
  floats share.
\<close>

definition calculate_ratio :: "nat \<Rightarrow> nat \<Rightarrow> real" where
  "calculate_ratio matches len = (if len \<noteq> 0 then 2 * real matches / real len else 1)"

definition ratio :: "string \<Rightarrow> string \<Rightarrow> real" where
  "ratio a b =
     calculate_ratio (sum_list (map (\<lambda>(i, j, k). k) (get_matching_blocks a b))) (length a + length b)"

subsection \<open>\<^verbatim>\<open>_calculate_title_similarity\<close>\<close>

text \<open>\<^verbatim>\<open>set([text[i:i+n] for i in range(len(text)-n+1)])\<close>; the range is empty for a short text.\<close>

definition get_ngrams :: "string \<Rightarrow> nat \<Rightarrow> string set" where
  "get_ngrams text n = set (map (\<lambda>i. take n (drop i text)) [0..<length text + 1 - n])"

text \<open>
  The source computes the word overlap and the n-gram similarity by the same lines of
  code on two sets: 0 when one of them is empty, else intersection over union.
\<close>

definition overlap :: "'a set \<Rightarrow> 'a set \<Rightarrow> real" where
  "overlap s1 s2 =
     (if s1 = {} \<or> s2 = {} then 0
      else (let intersection = card (s1 \<inter> s2); union = card (s1 \<union> s2)
            in if 0 < union then real intersection / real union else 0))"

definition calculate_title_similarity :: "string \<Rightarrow> string \<Rightarrow> real" where
  "calculate_title_similarity title1 title2 =
     (let seq_ratio = ratio title1 title2;
          word_overlap = overlap (set (split title1)) (set (split title2));
          ngram_sim = overlap (get_ngrams title1 3) (get_ngrams title2 3);
          similarity = seq_ratio * (4 / 10) + word_overlap * (3 / 10) + ngram_sim * (3 / 10)
      in similarity * 100)"

section \<open>The record matcher\<close>

subsection \<open>Rows, the prepared reference table and the result rows\<close>

text \<open>
  A candidate row has its cells by \<^verbatim>\<open>row.get(k, default)\<close>, so a column may be absent
  (\<open>None\<close>). The reference table has the columns \<^verbatim>\<open>Title\<close>, \<^verbatim>\<open>DOI_URL\<close> and
  \<^verbatim>\<open>Authors_Standardized\<close> (read by \<^verbatim>\<open>df['...']\<close> in the constructor, which fails
  without them) and may lack the other two. \<^verbatim>\<open>_prepare_reference_data\<close> adds three
  columns of texts.
\<close>

record candidate_row =
  eid :: "cell option"
  doi :: "cell option"
  title :: "cell option"
  authors :: "cell option"
  year :: "cell option"
  journal :: "cell option"

record reference_row =
  Title :: cell
  DOI_URL :: cell
  Authors_Standardized :: cell
  Publication_Year :: "cell option"
  Journal_Venue :: "cell option"

record prepared_row = reference_row +
  doi_normalized :: string
  title_normalized :: string
  first_author :: string

text \<open>
  \<^verbatim>\<open>match_details\<close> is a text built by an f-string; the one with the score formatted by
  \<^verbatim>\<open>{best_score:.1f}\<close> is kept as the score it is built from.
\<close>

datatype details = Text string | Title_similarity real

record match_info =
  search_idx :: nat
  search_eid :: cell
  search_doi :: cell
  search_title :: cell
  search_authors :: cell
  search_year :: cell
  match_status :: string
  match_confidence :: real
  match_type :: string
  reference_idx :: "nat option"
  reference_title :: cell
  reference_doi :: cell
  match_details :: details

text \<open>
  The object: the prepared table, the thresholds of the configuration file (a dictionary
  read by \<^verbatim>\<open>self.match_thresholds['doi']\<close>, \<^verbatim>\<open>['title_fuzzy']\<close> and \<^verbatim>\<open>['author_year']\<close>; the
  file is not part of the sources, so its values are a parameter) and the two lookup
  dictionaries.
\<close>

record deduplicator =
  reference_df :: "prepared_row list"
  match_thresholds :: "string \<Rightarrow> real"
  doi_lookup :: "string \<rightharpoonup> nat"
  title_year_lookup :: "string \<times> string \<rightharpoonup> nat list"

text \<open>\<^verbatim>\<open>row.get(k, '')\<close> and \<^verbatim>\<open>str(row.get(k, ''))\<close>.\<close>

definition get_or_empty :: "cell option \<Rightarrow> cell" where
  "get_or_empty c = (case c of None \<Rightarrow> Str [] | Some v \<Rightarrow> v)"

definition get_str :: "cell option \<Rightarrow> string" where
  "get_str c = py_str (get_or_empty c)"

subsection \<open>\<^verbatim>\<open>__init__\<close> and \<^verbatim>\<open>_prepare_reference_data\<close>\<close>

fun prepare_rows :: "reference_row list \<Rightarrow> py_error + prepared_row list" where
  "prepare_rows [] = Inr []"
| "prepare_rows (r # rs) =
     (case extract_first_author (Authors_Standardized r) of
        Inl e \<Rightarrow> Inl e
      | Inr fa \<Rightarrow>
          (case prepare_rows rs of
             Inl e \<Rightarrow> Inl e
           | Inr ps \<Rightarrow>
               Inr (\<lparr>Title = Title r, DOI_URL = DOI_URL r,
                      Authors_Standardized = Authors_Standardized r,
                      Publication_Year = Publication_Year r, Journal_Venue = Journal_Venue r,
                      doi_normalized = normalize_doi (DOI_URL r),
                      title_normalized = normalize_title (Title r),
                      first_author = fa\<rparr> # ps)))"

text \<open>
  \<^verbatim>\<open>dict(zip(doi_normalized, index))\<close>: a later row with the same key replaces an earlier
  one. The loop for \<^verbatim>\<open>title_year_lookup\<close> appends the index to the list of its key.
\<close>

definition build_doi_lookup :: "prepared_row list \<Rightarrow> (string \<rightharpoonup> nat)" where
  "build_doi_lookup rows =
     fold (\<lambda>(idx, row) m. m(doi_normalized row \<mapsto> idx)) (enumerate 0 rows) Map.empty"

definition build_title_year_lookup :: "prepared_row list \<Rightarrow> (string \<times> string \<rightharpoonup> nat list)" where
  "build_title_year_lookup rows =
     fold (\<lambda>(idx, row) m.
             (let key = (title_normalized row, get_str (Publication_Year row))
              in m(key \<mapsto> (case m key of None \<Rightarrow> [] | Some l \<Rightarrow> l) @ [idx])))
          (enumerate 0 rows) Map.empty"

definition init_deduplicator :: "reference_row list \<Rightarrow> (string \<Rightarrow> real) \<Rightarrow> py_error + deduplicator" where
  "init_deduplicator reference config =
     (case prepare_rows reference of
        Inl e \<Rightarrow> Inl e
      | Inr rows \<Rightarrow>
          Inr \<lparr>reference_df = rows, match_thresholds = config,
               doi_lookup = build_doi_lookup rows,
               title_year_lookup = build_title_year_lookup rows\<rparr>)"

subsection \<open>\<^verbatim>\<open>find_matches\<close>\<close>

text \<open>
  \<^verbatim>\<open>int(float(s))\<close> of a text is Python's own: it gives an integer, raises ValueError (no
  number, or NaN) or raises OverflowError (an infinity). The matcher is modelled for any
  such function \<open>pf\<close>, a parameter of the model; no theorem below depends on which
  texts it accepts.
\<close>

datatype year_parse = Parsed int | Value_Error | Overflow_Error

text \<open>
  The \<^verbatim>\<open>try\<close> block of the fuzzy loop: \<open>Inr True\<close> is \<^verbatim>\<open>continue\<close> (by the test or by
  \<^verbatim>\<open>except ValueError\<close>), \<open>Inr False\<close> goes on to the similarity, and an OverflowError is
  not caught.
\<close>

definition year_skip :: "(string \<Rightarrow> year_parse) \<Rightarrow> string \<Rightarrow> string \<Rightarrow> py_error + bool" where
  "year_skip pf yr ref_year =
     (if yr \<noteq> [] \<and> ref_year \<noteq> [] then
        (case pf yr of
           Value_Error \<Rightarrow> Inr True
         | Overflow_Error \<Rightarrow> Inl OverflowError
         | Parsed y \<Rightarrow>
             (case pf ref_year of
                Value_Error \<Rightarrow> Inr True
              | Overflow_Error \<Rightarrow> Inl OverflowError
              | Parsed r \<Rightarrow> Inr (1 < \<bar>y - r\<bar>)))
      else Inr False)"

fun fuzzy_scan :: "(string \<Rightarrow> year_parse) \<Rightarrow> string \<Rightarrow> string \<Rightarrow> (nat \<times> prepared_row) list
    \<Rightarrow> nat option \<times> real \<Rightarrow> py_error + nat option \<times> real" where
  "fuzzy_scan pf title_norm yr [] best = Inr best"
| "fuzzy_scan pf title_norm yr ((ref_idx, ref_row) # rest) (best_match, best_score) =
     (case year_skip pf yr (get_str (Publication_Year ref_row)) of
        Inl e \<Rightarrow> Inl e
      | Inr True \<Rightarrow> fuzzy_scan pf title_norm yr rest (best_match, best_score)
      | Inr False \<Rightarrow>
          (let similarity = calculate_title_similarity title_norm (title_normalized ref_row)
           in if best_score < similarity
              then fuzzy_scan pf title_norm yr rest (Some ref_idx, similarity)
              else fuzzy_scan pf title_norm yr rest (best_match, best_score)))"

text \<open>\<^verbatim>\<open>self.reference_df.loc[i]\<close>; a label that is no row of the table is a KeyError.\<close>

definition loc :: "prepared_row list \<Rightarrow> nat \<Rightarrow> py_error + prepared_row" where
  "loc df i = (if i < length df then Inr (df ! i) else Inl KeyError)"

definition initial_match_info :: "nat \<Rightarrow> candidate_row \<Rightarrow> match_info" where
  "initial_match_info idx row =
     \<lparr>search_idx = idx, search_eid = get_or_empty (eid row), search_doi = get_or_empty (doi row),
      search_title = get_or_empty (title row), search_authors = get_or_empty (authors row),
      search_year = get_or_empty (year row), match_status = ''no_match'', match_confidence = 0,
      match_type = [], reference_idx = None, reference_title = Str [], reference_doi = Str [],
      match_details = Text []\<rparr>"

text \<open>The four calls of \<^verbatim>\<open>match_info.update({...})\<close> set the same seven keys.\<close>

definition update_match :: "match_info \<Rightarrow> string \<Rightarrow> real \<Rightarrow> string \<Rightarrow> nat \<Rightarrow> prepared_row \<Rightarrow> details
    \<Rightarrow> match_info" where
  "update_match mi status confidence mtype ref_idx ref_row det =
     mi\<lparr>match_status := status, match_confidence := confidence, match_type := mtype,
        reference_idx := Some ref_idx, reference_title := Title ref_row,
        reference_doi := DOI_URL ref_row, match_details := det\<rparr>"

text \<open>
  Each of the first three tiers gives \<open>Some\<close> result row when it decides (the source
  appends it and goes on to the next candidate with \<^verbatim>\<open>continue\<close>) and \<open>None\<close> when the
  next tier is to be tried.
\<close>

definition doi_tier :: "deduplicator \<Rightarrow> candidate_row \<Rightarrow> match_info \<Rightarrow> py_error + match_info option" where
  "doi_tier D row mi =
     (case doi row of
        None \<Rightarrow> Inr None
      | Some d \<Rightarrow>
          if truthy d then
            (let doi_norm = normalize_doi d in
             if doi_norm \<noteq> [] then
               (case doi_lookup D doi_norm of
                  None \<Rightarrow> Inr None
                | Some ref_idx \<Rightarrow>
                    (case loc (reference_df D) ref_idx of
                       Inl e \<Rightarrow> Inl e
                     | Inr ref_row \<Rightarrow>
                         Inr (Some (update_match mi ''definite_match'' (match_thresholds D ''doi'')
                                      ''doi'' ref_idx ref_row (Text (''DOI match: '' @ doi_norm))))))
             else Inr None)
          else Inr None)"

definition exact_tier :: "deduplicator \<Rightarrow> string \<Rightarrow> string \<Rightarrow> match_info \<Rightarrow> py_error + match_info option" where
  "exact_tier D title_norm yr mi =
     (case title_year_lookup D (title_norm, yr) of
        None \<Rightarrow> Inr None
      | Some ref_indices \<Rightarrow>
          (case ref_indices of
             [] \<Rightarrow> Inr None
           | ref_idx # others \<Rightarrow>
               (case loc (reference_df D) ref_idx of
                  Inl e \<Rightarrow> Inl e
                | Inr ref_row \<Rightarrow>
                    Inr (Some (update_match mi ''very_likely_match'' 90 ''title_year_exact''
                                 ref_idx ref_row (Text ''Exact title and year match''))))))"

definition fuzzy_tier :: "(string \<Rightarrow> year_parse) \<Rightarrow> deduplicator \<Rightarrow> string \<Rightarrow> string \<Rightarrow> match_info
    \<Rightarrow> py_error + match_info option" where
  "fuzzy_tier pf D title_norm yr mi =
     (case fuzzy_scan pf title_norm yr (enumerate 0 (reference_df D)) (None, 0) of
        Inl e \<Rightarrow> Inl e
      | Inr (best_match, best_score) \<Rightarrow>
          if match_thresholds D ''title_fuzzy'' \<le> best_score then
            (case best_match of
               None \<Rightarrow> Inl KeyError
             | Some ref_idx \<Rightarrow>
                 (case loc (reference_df D) ref_idx of
                    Inl e \<Rightarrow> Inl e
                  | Inr ref_row \<Rightarrow>
                      (let status = (if 90 \<le> best_score then ''very_likely_match''
                                     else if 80 \<le> best_score then ''probable_match''
                                     else ''possible_match'')
                       in Inr (Some (update_match mi status best_score ''title_fuzzy''
                                       ref_idx ref_row (Title_similarity best_score))))))
          else Inr None)"

text \<open>\<^verbatim>\<open>x.lower()\<close> of a cell: only a text has the method.\<close>

definition cell_lower :: "cell \<Rightarrow> py_error + string" where
  "cell_lower c = (case c of Str s \<Rightarrow> Inr (lower s) | _ \<Rightarrow> Inl AttributeError)"

text \<open>
  The author and year loop: at the first matching reference row the result row is
  appended and the loop left by \<^verbatim>\<open>break\<close>.
\<close>

fun author_scan :: "deduplicator \<Rightarrow> candidate_row \<Rightarrow> string \<Rightarrow> string \<Rightarrow> (nat \<times> prepared_row) list
    \<Rightarrow> match_info \<Rightarrow> match_info list \<Rightarrow> py_error + match_info \<times> match_info list" where
  "author_scan D row search_first_author yr [] mi results = Inr (mi, results)"
| "author_scan D row search_first_author yr ((ref_idx, ref_row) # rest) mi results =
     (let ref_year = get_str (Publication_Year ref_row);
          ref_first_author = first_author ref_row
      in if lower search_first_author = lower ref_first_author \<and> yr = ref_year then
           (case cell_lower (get_or_empty (journal row)) of
              Inl e \<Rightarrow> Inl e
            | Inr j \<Rightarrow>
                (case cell_lower (get_or_empty (Journal_Venue ref_row)) of
                   Inl e \<Rightarrow> Inl e
                 | Inr v \<Rightarrow>
                     (let confidence = match_thresholds D ''author_year'' + (if j = v then 10 else 0);
                          mi' = update_match mi ''possible_match'' confidence ''author_year''
                                  ref_idx ref_row
                                  (Text (''Author + year match: '' @ search_first_author
                                         @ '' ('' @ yr @ '')''))
                      in Inr (mi', results @ [mi']))))
         else author_scan D row search_first_author yr rest mi results)"

text \<open>The body of the loop over the candidates, with the list \<^verbatim>\<open>results\<close> as state.\<close>

definition title_tiers :: "(string \<Rightarrow> year_parse) \<Rightarrow> deduplicator \<Rightarrow> string \<Rightarrow> string \<Rightarrow> match_info
    \<Rightarrow> py_error + match_info option" where
  "title_tiers pf D title_norm yr mi =
     (if title_norm \<noteq> [] then
        (case exact_tier D title_norm yr mi of
           Inl e \<Rightarrow> Inl e
         | Inr (Some m) \<Rightarrow> Inr (Some m)
         | Inr None \<Rightarrow> fuzzy_tier pf D title_norm yr mi)
      else Inr None)"

definition author_tier :: "deduplicator \<Rightarrow> candidate_row \<Rightarrow> string \<Rightarrow> match_info \<Rightarrow> match_info list
    \<Rightarrow> py_error + match_info list" where
  "author_tier D row yr mi results =
     (case extract_first_author (get_or_empty (authors row)) of
        Inl e \<Rightarrow> Inl e
      | Inr search_first_author \<Rightarrow>
          (case (if search_first_author \<noteq> [] \<and> yr \<noteq> []
                 then author_scan D row search_first_author yr (enumerate 0 (reference_df D)) mi results
                 else Inr (mi, results)) of
             Inl e \<Rightarrow> Inl e
           | Inr (mi', results') \<Rightarrow>
               Inr (if match_status mi' = ''no_match'' then results' @ [mi'] else results')))"

definition process_row :: "(string \<Rightarrow> year_parse) \<Rightarrow> deduplicator \<Rightarrow> nat \<times> candidate_row
    \<Rightarrow> match_info list \<Rightarrow> py_error + match_info list" where
  "process_row pf D r results =
     (case r of (idx, row) \<Rightarrow>
        (let mi = initial_match_info idx row in
         case doi_tier D row mi of
           Inl e \<Rightarrow> Inl e
         | Inr (Some m) \<Rightarrow> Inr (results @ [m])
         | Inr None \<Rightarrow>
             (let title_norm = normalize_title (get_or_empty (title row));
                  yr = get_str (year row)
              in case title_tiers pf D title_norm yr mi of
                   Inl e \<Rightarrow> Inl e
                 | Inr (Some m) \<Rightarrow> Inr (results @ [m])
                 | Inr None \<Rightarrow> author_tier D row yr mi results)))"

text \<open>
  The candidate table is the list of the pairs of \<^verbatim>\<open>iterrows()\<close>, index label and row; an
  exception in one row ends the whole call.
\<close>

fun find_matches_loop :: "(string \<Rightarrow> year_parse) \<Rightarrow> deduplicator \<Rightarrow> (nat \<times> candidate_row) list
    \<Rightarrow> match_info list \<Rightarrow> py_error + match_info list" where
  "find_matches_loop pf D [] results = Inr results"
| "find_matches_loop pf D (r # rest) results =
     (case process_row pf D r results of
        Inl e \<Rightarrow> Inl e
      | Inr results' \<Rightarrow> find_matches_loop pf D rest results')"

definition find_matches :: "(string \<Rightarrow> year_parse) \<Rightarrow> deduplicator \<Rightarrow> (nat \<times> candidate_row) list
    \<Rightarrow> py_error + match_info list" where
  "find_matches pf D search_results_df = find_matches_loop pf D search_results_df []"

section \<open>Notions for the statements\<close>

subsection \<open>Sizes of blocks and runs of elements\<close>

text \<open>
  \<open>sizes\<close> is the number of matched elements that \<^verbatim>\<open>ratio\<close> sums up; \<open>a_room\<close> and
  \<open>b_room\<close> are the lengths of the windows still in the worklist. \<open>run s i\<close> counts the
  consecutive elements of \<open>s\<close> up to position \<open>i\<close> that have an entry in \<open>b2j\<close>, and
  \<open>kval f j\<close> is the length the inner loop computes at column \<open>j\<close> from the lengths \<open>f\<close> of
  the row before.
\<close>

definition sizes :: "(nat \<times> nat \<times> nat) list \<Rightarrow> nat" where
  "sizes ms = sum_list (map (\<lambda>(i, j, k). k) ms)"

definition a_room :: "(nat \<times> nat \<times> nat \<times> nat) list \<Rightarrow> nat" where
  "a_room queue = (\<Sum>(alo, ahi, blo, bhi) \<leftarrow> queue. ahi - alo)"

definition b_room :: "(nat \<times> nat \<times> nat \<times> nat) list \<Rightarrow> nat" where
  "b_room queue = (\<Sum>(alo, ahi, blo, bhi) \<leftarrow> queue. bhi - blo)"

fun run :: "string \<Rightarrow> nat \<Rightarrow> nat" where
  "run s 0 = (if b2j s (s ! 0) = [] then 0 else 1)"
| "run s (Suc i) = (if b2j s (s ! Suc i) = [] then 0 else Suc (run s i))"

definition prun :: "string \<Rightarrow> nat \<Rightarrow> nat" where
  "prun s m = (case m of 0 \<Rightarrow> 0 | Suc i \<Rightarrow> run s i)"

definition kval :: "(nat \<Rightarrow> nat) \<Rightarrow> nat \<Rightarrow> nat" where
  "kval f j = (case j of 0 \<Rightarrow> 0 | Suc j' \<Rightarrow> f j') + 1"

subsection \<open>DOI-like texts and the surname in the words of the specification\<close>

text \<open>
  A DOI-like text, as the pattern describes it: \<^verbatim>\<open>10.\<close>, four or more digits, and one or
  more characters of the class. \<open>has_doi_like s\<close>: such a text occurs somewhere in \<open>s\<close>.
\<close>

definition doi_like :: "string \<Rightarrow> bool" where
  "doi_like d = (\<exists>ds cs. d = ''10.'' @ ds @ cs \<and> 4 \<le> length ds \<and> list_all is_digit ds
                   \<and> cs \<noteq> [] \<and> list_all is_doi_char cs)"

definition has_doi_like :: "string \<Rightarrow> bool" where
  "has_doi_like s = (\<exists>pre d suf. s = pre @ d @ suf \<and> doi_like d)"

text \<open>
  The function in the words of the specification: split on \<open>;\<close> if present, else on
  \<open>,\<close> when there is more than one, else on whitespace; take the first segment (the empty
  text when there is none); return its last word (the empty text when it has none).
\<close>

definition first_segment_spec :: "string \<Rightarrow> string" where
  "first_segment_spec s =
     (if CHR '';'' \<in> set s then takeWhile (\<lambda>c. c \<noteq> CHR '';'') s
      else if 1 < count_list s CHR '','' then takeWhile (\<lambda>c. c \<noteq> CHR '','') s
      else (case split s of [] \<Rightarrow> [] | w # ws \<Rightarrow> w))"

definition extract_first_author_surname_spec :: "cell \<Rightarrow> string" where
  "extract_first_author_surname_spec raw =
     (if isna raw then []
      else (case split (first_segment_spec (py_str raw)) of [] \<Rightarrow> [] | w # ws \<Rightarrow> last (w # ws)))"

definition blank :: "string \<Rightarrow> bool" where
  "blank s = (s \<noteq> [] \<and> list_all is_space s)"

subsection \<open>A small reference table and some candidates\<close>

text \<open>
  The examples below use one reference row, thresholds 100, 70 and 60, and the values of
  \<^verbatim>\<open>int(float(s))\<close> at the year texts that occur in them (every other text of the examples
  is not a number).
\<close>

definition sample_config :: "string \<Rightarrow> real" where
  "sample_config k = (if k = ''doi'' then 100 else if k = ''title_fuzzy'' then 70 else 60)"

definition sample_int_float :: "string \<Rightarrow> year_parse" where
  "sample_int_float s =
     (if s = ''2021'' then Parsed 2021 else if s = ''2025'' then Parsed 2025 else Value_Error)"

definition sample_reference :: "reference_row list" where
  "sample_reference =
     [\<lparr>Title = Str ''Hospital Mergers'', DOI_URL = Str ''https://doi.org/10.1377/x'',
       Authors_Standardized = Str ''Furukawa M.'', Publication_Year = Some (IntV 2021),
       Journal_Venue = Some (Str ''Health Affairs'')\<rparr>]"

definition sample_rows :: "prepared_row list" where
  "sample_rows =
     [\<lparr>Title = Str ''Hospital Mergers'', DOI_URL = Str ''https://doi.org/10.1377/x'',
       Authors_Standardized = Str ''Furukawa M.'', Publication_Year = Some (IntV 2021),
       Journal_Venue = Some (Str ''Health Affairs''), doi_normalized = ''10.1377/x'',
       title_normalized = ''hospital mergers'', first_author = ''Furukawa''\<rparr>]"

definition sample_dedup :: deduplicator where
  "sample_dedup =
     \<lparr>reference_df = sample_rows, match_thresholds = sample_config,
      doi_lookup = build_doi_lookup sample_rows,
      title_year_lookup = build_title_year_lookup sample_rows\<rparr>"

definition cand_doi :: candidate_row where
  "cand_doi = \<lparr>eid = None, doi = Some (Str ''10.1377/X''), title = Some (Str ''Zebra''),
               authors = None, year = Some (Str ''2025''), journal = None\<rparr>"

definition cand_2025 :: candidate_row where
  "cand_2025 = \<lparr>eid = None, doi = None, title = Some (Str ''Hospital Mergers''),
                authors = None, year = Some (Str ''2025''), journal = None\<rparr>"

definition cand_no_year :: candidate_row where
  "cand_no_year = \<lparr>eid = None, doi = None, title = Some (Str ''Hospital Mergers''),
                   authors = Some (Str ''Furukawa M.''), year = None, journal = None\<rparr>"

definition cand_empty :: candidate_row where
  "cand_empty = \<lparr>eid = None, doi = None, title = None, authors = None, year = None,
                 journal = None\<rparr>"

definition no_doi_reference :: "reference_row list" where
  "no_doi_reference =
     [\<lparr>Title = Str ''Hospital Mergers'', DOI_URL = NaN,
       Authors_Standardized = Str ''Furukawa M.'', Publication_Year = Some (IntV 2021),
       Journal_Venue = None\<rparr>]"

definition no_doi_rows :: "prepared_row list" where
  "no_doi_rows =
     [\<lparr>Title = Str ''Hospital Mergers'', DOI_URL = NaN,
       Authors_Standardized = Str ''Furukawa M.'', Publication_Year = Some (IntV 2021),
       Journal_Venue = None, doi_normalized = [],
       title_normalized = ''hospital mergers'', first_author = ''Furukawa''\<rparr>]"

definition no_doi_dedup :: deduplicator where
  "no_doi_dedup =
     \<lparr>reference_df = no_doi_rows, match_thresholds = sample_config,
      doi_lookup = build_doi_lookup no_doi_rows,
      title_year_lookup = build_title_year_lookup no_doi_rows\<rparr>"

definition cand_blank_doi :: candidate_row where
  "cand_blank_doi = \<lparr>eid = None, doi = Some (Str '' ''), title = None, authors = None,
                     year = None, journal = None\<rparr>"

definition cand_nan_journal :: candidate_row where
  "cand_nan_journal = \<lparr>eid = None, doi = None, title = None, authors = Some (Str ''Furukawa M.''),
                       year = Some (Str ''2021''), journal = Some NaN\<rparr>"

section \<open>Properties of the similarity scorer\<close>

subsection \<open>The score lies between 0 and 100\<close>

text \<open>
  The blocks found in a window of \<open>a\<close> and \<open>b\<close> are disjoint pieces of it, so their sizes
  add up to at most the length of either text, and the ratio to at most 1.
\<close>

lemma sizes_simps [simp]:
  "sizes [] = 0" "sizes ((i, j, k) # ms) = k + sizes ms" "sizes (xs @ ys) = sizes xs + sizes ys"
  by (simp_all add: sizes_def)

lemma room_simps [simp]:
  "a_room [] = 0" "a_room ((alo, ahi, blo, bhi) # q) = (ahi - alo) + a_room q"
  "a_room (q @ q') = a_room q + a_room q'"
  "b_room [] = 0" "b_room ((alo, ahi, blo, bhi) # q) = (bhi - blo) + b_room q"
  "b_room (q @ q') = b_room q + b_room q'"
  by (simp_all add: a_room_def b_room_def)

lemma blocks_loop_sizes:
  "sizes (blocks_loop a b queue mb) \<le> sizes mb + a_room queue \<and>
   sizes (blocks_loop a b queue mb) \<le> sizes mb + b_room queue"
proof (induction a b queue mb rule: blocks_loop.induct)
  case (1 a b mb)
  show ?case by (simp add: blocks_loop.simps)
next
  case (2 a b alo ahi blo bhi queue mb)
  obtain i j k where m: "find_longest_match a b alo ahi blo bhi = (i, j, k)"
    by (metis prod_cases3)
  have ok: "best_ok alo ahi blo bhi (i, j, k)"
    using find_longest_match_ok[of alo ahi blo bhi a b] m by simp
  define q' where "q' = (if i + k < ahi \<and> j + k < bhi then [(i + k, ahi, j + k, bhi)] else [])
                @ (if alo < i \<and> blo < j then [(alo, i, blo, j)] else []) @ queue"
  have eq: "blocks_loop a b ((alo, ahi, blo, bhi) # queue) mb =
     (if k \<noteq> 0 then blocks_loop a b q' (mb @ [(i, j, k)]) else blocks_loop a b queue mb)"
    by (subst blocks_loop.simps) (simp add: m q'_def)
  show ?case
  proof (cases "k = 0")
    case True
    then have "\<not> k \<noteq> 0" by simp
    from 2(2)[OF m[symmetric] refl this] True show ?thesis
      unfolding eq by simp
  next
    case False
    have ra: "k + a_room q' \<le> (ahi - alo) + a_room queue"
      using ok False by (auto simp: q'_def best_ok_def)
    have rb: "k + b_room q' \<le> (bhi - blo) + b_room queue"
      using ok False by (auto simp: q'_def best_ok_def)
    from 2(1)[OF m[symmetric] refl False]
    have "sizes (blocks_loop a b q' (mb @ [(i, j, k)])) \<le> sizes (mb @ [(i, j, k)]) + a_room q'"
      "sizes (blocks_loop a b q' (mb @ [(i, j, k)])) \<le> sizes (mb @ [(i, j, k)]) + b_room q'"
      unfolding q'_def by auto
    with ra rb False show ?thesis unfolding eq by simp
  qed
qed

lemma sizes_merge_adjacent: "sizes (merge_adjacent m ms) = sizes [m] + sizes ms"
  by (induction m ms rule: merge_adjacent.induct) auto

lemma sizes_sort: "sizes (sort ms) = sizes ms"
proof -
  have "mset (map (\<lambda>(i, j, k). k) (sort ms)) = mset (map (\<lambda>(i, j, k). k) ms)"
    by simp
  then show ?thesis unfolding sizes_def by (metis sum_mset_sum_list)
qed

lemma sizes_get_matching_blocks:
  "sizes (get_matching_blocks a b) = sizes (blocks_loop a b [(0, length a, 0, length b)] [])"
  by (simp add: get_matching_blocks_def Let_def sizes_merge_adjacent sizes_sort)

lemma matches_le:
  "sizes (get_matching_blocks a b) \<le> length a" "sizes (get_matching_blocks a b) \<le> length b"
  using blocks_loop_sizes[of a b "[(0, length a, 0, length b)]" "[]"]
  by (simp_all add: sizes_get_matching_blocks a_room_def b_room_def)

lemma ratio_bounds: "0 \<le> ratio a b \<and> ratio a b \<le> 1"
proof -
  let ?m = "sizes (get_matching_blocks a b)"
  have "2 * ?m \<le> length a + length b" using matches_le[of a b] by simp
  then have "2 * real ?m \<le> real (length a + length b)"
    by (metis of_nat_le_iff of_nat_mult of_nat_numeral)
  then show ?thesis
    by (auto simp: ratio_def calculate_ratio_def sizes_def[symmetric] divide_le_eq)
qed

lemma overlap_bounds: "finite s1 \<Longrightarrow> finite s2 \<Longrightarrow> 0 \<le> overlap s1 s2 \<and> overlap s1 s2 \<le> 1"
proof -
  assume f: "finite s1" "finite s2"
  have "card (s1 \<inter> s2) \<le> card (s1 \<union> s2)"
    using f by (intro card_mono) auto
  then show ?thesis
    by (auto simp: overlap_def Let_def divide_le_eq)
qed

lemma overlap_sym: "overlap s1 s2 = overlap s2 s1"
  by (auto simp: overlap_def Let_def Int_commute Un_commute)

lemma similarity_bounds:
  "0 \<le> calculate_title_similarity a b \<and> calculate_title_similarity a b \<le> 100"
proof -
  have r: "0 \<le> ratio a b" "ratio a b \<le> 1" using ratio_bounds by auto
  have w: "0 \<le> overlap (set (split a)) (set (split b))" "overlap (set (split a)) (set (split b)) \<le> 1"
    using overlap_bounds[of "set (split a)" "set (split b)"] by auto
  have n: "0 \<le> overlap (get_ngrams a 3) (get_ngrams b 3)" "overlap (get_ngrams a 3) (get_ngrams b 3) \<le> 1"
    using overlap_bounds[of "get_ngrams a 3" "get_ngrams b 3"] by (auto simp: get_ngrams_def)
  from r w n show ?thesis
    by (simp add: calculate_title_similarity_def Let_def)
qed

subsection \<open>A text compared with itself\<close>

text \<open>
  \<open>run s i\<close> is the number of consecutive elements of \<open>s\<close> up to position \<open>i\<close> that
  still have an entry in \<open>b2j\<close>. When a text is matched against itself, every length the
  inner loop computes at \<open>(i, j)\<close> is bounded by the runs at \<open>i\<close> and at \<open>j\<close>, so a new
  best block is only ever found on the diagonal, and the two extension loops then grow it
  to the whole text.
\<close>

lemma run_prun: "run s m = (if b2j s (s ! m) = [] then 0 else Suc (prun s m))"
  by (cases m) (simp_all add: prun_def)

lemma b2j_cases:
  "b2j s x = [] \<or> b2j s x = [j \<leftarrow> [0..<length s]. s ! j = x]"
  by (simp add: b2j_def Let_def)

lemma scan_row_diag:
  assumes js: "sorted js" "distinct js"
    and kj: "\<forall>j\<in>set js. j < n \<and> kval f j \<le> run s m \<and> kval f j \<le> run s j"
    and km: "m \<in> set js \<Longrightarrow> kval f m = run s m"
    and st: "bi = bj" "\<forall>i<m. run s i \<le> bs" "m \<notin> set js \<Longrightarrow> run s m \<le> bs"
    and new: "\<forall>j. new j \<le> run s m \<and> (j < n \<longrightarrow> new j \<le> run s j)" "m \<notin> set js \<Longrightarrow> new m = run s m"
    and res: "scan_row m 0 n f js (new, bi, bj, bs) = (new', bi', bj', bs')"
  shows "bi' = bj' \<and> (\<forall>i<Suc m. run s i \<le> bs')
       \<and> (\<forall>j. new' j \<le> run s m \<and> (j < n \<longrightarrow> new' j \<le> run s j)) \<and> new' m = run s m"
  using assms
proof (induction js arbitrary: new bi bj bs)
  case Nil
  then show ?case by (auto simp: less_Suc_eq)
next
  case (Cons j js)
  have jn: "j < n" and k1: "kval f j \<le> run s m" and k2: "kval f j \<le> run s j"
    using Cons.prems(3) by auto
  have srt: "sorted js" "distinct js" "j \<notin> set js" "\<forall>x\<in>set js. j \<le> x"
    using Cons.prems(1,2) by auto
  have kj': "\<forall>j\<in>set js. j < n \<and> kval f j \<le> run s m \<and> kval f j \<le> run s j"
    using Cons.prems(3) by auto
  have km': "m \<in> set js \<Longrightarrow> kval f m = run s m" using Cons.prems(4) by auto
  have newk: "\<forall>x. (new(j := kval f j)) x \<le> run s m \<and> (x < n \<longrightarrow> (new(j := kval f j)) x \<le> run s x)"
    using Cons.prems(8) k1 k2 by auto
  have noupd: "\<not> bs < kval f j" if "j \<noteq> m"
  proof (cases "j < m")
    case True
    with Cons.prems(6) have "run s j \<le> bs" by simp
    with k2 show ?thesis by simp
  next
    case False
    with that have "m < j" by simp
    with srt(4) have "m \<notin> set (j # js)" by auto
    with Cons.prems(7) have "run s m \<le> bs" by simp
    with k1 show ?thesis by simp
  qed
  show ?case
  proof (cases "j = m")
    case False
    have nb: "\<not> bs < kval f j" using noupd False by simp
    have step: "scan_row m 0 n f js (new(j := kval f j), bi, bj, bs) = (new', bi', bj', bs')"
      using Cons.prems(10) jn nb by (simp add: kval_def Let_def)
    have a7: "m \<notin> set js \<Longrightarrow> run s m \<le> bs" using Cons.prems(7) False by simp
    have a9: "m \<notin> set js \<Longrightarrow> (new(j := kval f j)) m = run s m" using Cons.prems(9) False by simp
    show ?thesis
      by (rule Cons.IH[OF srt(1,2) kj' km' Cons.prems(5,6) a7 newk a9 step])
  next
    case True
    have kv: "kval f m = run s m" using Cons.prems(4) True by simp
    have mn: "m \<notin> set js" using srt(3) True by simp
    have a9: "m \<notin> set js \<Longrightarrow> (new(j := kval f j)) m = run s m" using True kv by simp
    show ?thesis
    proof (cases "bs < kval f j")
      case ub: True
      have step: "scan_row m 0 n f js (new(j := kval f j), Suc m - kval f j, Suc j - kval f j, kval f j) = (new', bi', bj', bs')"
        using Cons.prems(10) jn ub by (simp add: kval_def Let_def)
      have b5: "Suc m - kval f j = Suc j - kval f j" using True by simp
      have b6: "\<forall>i<m. run s i \<le> kval f j" using Cons.prems(6) ub by (meson le_trans less_imp_le_nat)
      have b7: "m \<notin> set js \<Longrightarrow> run s m \<le> kval f j" using True kv by simp
      show ?thesis
        by (rule Cons.IH[OF srt(1,2) kj' km' b5 b6 b7 newk a9 step])
    next
      case nb: False
      have step: "scan_row m 0 n f js (new(j := kval f j), bi, bj, bs) = (new', bi', bj', bs')"
        using Cons.prems(10) jn nb by (simp add: kval_def Let_def)
      have a7: "m \<notin> set js \<Longrightarrow> run s m \<le> bs" using nb kv True by simp
      show ?thesis
        by (rule Cons.IH[OF srt(1,2) kj' km' Cons.prems(5,6) a7 newk a9 step])
    qed
  qed
qed

lemma row_diag:
  assumes m: "m < length s"
    and f: "\<forall>j. f j \<le> prun s m \<and> (j < length s \<longrightarrow> f j \<le> run s j)"
           "0 < m \<Longrightarrow> f (m - 1) = run s (m - 1)"
    and st: "bi = bj" "\<forall>i<m. run s i \<le> bs"
    and res: "row_step s s 0 (length s) m (f, bi, bj, bs) = (f', bi', bj', bs')"
  shows "bi' = bj' \<and> (\<forall>i<Suc m. run s i \<le> bs')
       \<and> (\<forall>j. f' j \<le> prun s (Suc m) \<and> (j < length s \<longrightarrow> f' j \<le> run s j)) \<and> f' m = run s m"
proof -
  let ?js = "b2j s (s ! m)"
  have scan: "scan_row m 0 (length s) f ?js (\<lambda>j. 0, bi, bj, bs) = (f', bi', bj', bs')"
    using res by (simp add: row_step_def)
  have js_cases: "?js = [] \<or> ?js = [j \<leftarrow> [0..<length s]. s ! j = s ! m]"
    by (rule b2j_cases)
  have sorted: "sorted ?js" "distinct ?js"
    using js_cases by (auto simp: sorted_wrt_filter)
  have mem: "m \<notin> set ?js \<Longrightarrow> ?js = []"
    using js_cases m by auto
  have run0: "?js = [] \<Longrightarrow> run s m = 0" by (simp add: run_prun)
  have runS: "?js \<noteq> [] \<Longrightarrow> run s m = Suc (prun s m)" by (simp add: run_prun)
  have kbound: "kval f j \<le> Suc (prun s j)" if "j < length s" for j
  proof (cases j)
    case 0
    then show ?thesis by (simp add: kval_def prun_def)
  next
    case (Suc j')
    with that f(1) have "f j' \<le> run s j'" by simp
    with Suc show ?thesis by (simp add: kval_def prun_def)
  qed
  have kj: "\<forall>j\<in>set ?js. j < length s \<and> kval f j \<le> run s m \<and> kval f j \<le> run s j"
  proof
    fix j assume j: "j \<in> set ?js"
    then have ne: "?js \<noteq> []" by auto
    with js_cases j have jl: "j < length s" and eq: "s ! j = s ! m" by auto
    have "kval f j \<le> Suc (prun s m)"
      using f(1) by (auto simp: kval_def split: nat.splits intro: le_trans)
    then have a: "kval f j \<le> run s m" using runS[OF ne] by simp
    have "run s j = Suc (prun s j)" using ne eq by (simp add: run_prun)
    with kbound[OF jl] have b: "kval f j \<le> run s j" by simp
    from jl a b show "j < length s \<and> kval f j \<le> run s m \<and> kval f j \<le> run s j" by simp
  qed
  have km: "kval f m = run s m" if "m \<in> set ?js"
  proof -
    from that have ne: "?js \<noteq> []" by auto
    have "kval f m = Suc (prun s m)"
      using f(2) by (cases m) (simp_all add: kval_def prun_def)
    with runS[OF ne] show ?thesis by simp
  qed
  have a7: "m \<notin> set ?js \<Longrightarrow> run s m \<le> bs" using mem run0 by simp
  have a8: "\<forall>j. (\<lambda>j. 0::nat) j \<le> run s m \<and> (j < length s \<longrightarrow> (\<lambda>j. 0::nat) j \<le> run s j)" by simp
  have a9: "m \<notin> set ?js \<Longrightarrow> (\<lambda>j. 0::nat) m = run s m" using mem run0 by simp
  from scan_row_diag[OF sorted kj km st a7 a8 a9 scan]
  show ?thesis by (simp add: prun_def)
qed

lemma dp_diag_aux:
  assumes "m \<le> length s"
    and "fold (row_step s s 0 (length s)) [0..<m] (\<lambda>j. 0, 0, 0, 0) = (f, bi, bj, bs)"
  shows "bi = bj \<and> (\<forall>i<m. run s i \<le> bs)
       \<and> (\<forall>j. f j \<le> prun s m \<and> (j < length s \<longrightarrow> f j \<le> run s j))
       \<and> (0 < m \<longrightarrow> f (m - 1) = run s (m - 1))"
  using assms
proof (induction m arbitrary: f bi bj bs)
  case 0
  then show ?case by (auto simp: prun_def)
next
  case (Suc m)
  obtain f0 bi0 bj0 bs0 where st: "fold (row_step s s 0 (length s)) [0..<m] (\<lambda>j. 0, 0, 0, 0) = (f0, bi0, bj0, bs0)"
    by (metis prod_cases4)
  have ml: "m < length s" "m \<le> length s" using Suc.prems(1) by auto
  from Suc.IH[OF ml(2) st]
  have ih: "bi0 = bj0" "\<forall>i<m. run s i \<le> bs0"
    "\<forall>j. f0 j \<le> prun s m \<and> (j < length s \<longrightarrow> f0 j \<le> run s j)"
    "0 < m \<Longrightarrow> f0 (m - 1) = run s (m - 1)" by auto
  from Suc.prems(2) have "row_step s s 0 (length s) m
      (fold (row_step s s 0 (length s)) [0..<m] (\<lambda>j. 0, 0, 0, 0)) = (f, bi, bj, bs)"
    by simp
  then have step: "row_step s s 0 (length s) m (f0, bi0, bj0, bs0) = (f, bi, bj, bs)"
    unfolding st .
  from row_diag[OF ml(1) ih(3,4,1,2) step] show ?case by simp
qed

lemma dp_diag:
  assumes "longest_dp s s 0 (length s) 0 (length s) = (f, bi, bj, bs)"
  shows "bi = bj"
  using dp_diag_aux[of "length s" s f bi bj bs] assms by (simp add: longest_dp_def)

lemma extend_left_diag: "extend_left s s 0 0 (i, i, k) = (0, 0, k + i)"
proof (induction i arbitrary: k)
  case 0
  show ?case by (subst extend_left.simps) simp
next
  case (Suc i)
  show ?case by (subst extend_left.simps) (simp add: Suc)
qed

lemma extend_right_diag:
  "k \<le> n \<Longrightarrow> extend_right s s n n (0, 0, k) = (0, 0, n)"
proof (induction "n - k" arbitrary: k)
  case 0
  then show ?case by (subst extend_right.simps) simp
next
  case (Suc d)
  then have "extend_right s s n n (0, 0, k + 1) = (0, 0, n)" by simp
  with Suc show ?case by (subst extend_right.simps) simp
qed

lemma find_longest_match_self:
  "find_longest_match s s 0 (length s) 0 (length s) = (0, 0, length s)"
proof -
  obtain f bi bj bs where dp: "longest_dp s s 0 (length s) 0 (length s) = (f, bi, bj, bs)"
    by (metis prod_cases4)
  have d: "bi = bj" by (rule dp_diag[OF dp])
  have "best_ok 0 (length s) 0 (length s) (bi, bj, bs)" by (rule dp_inv[OF dp])
  then have "bs + bi \<le> length s" by (auto simp: best_ok_def split: if_splits)
  then show ?thesis
    by (simp add: find_longest_match_def dp d extend_left_diag extend_right_diag)
qed

lemma ratio_self: "ratio s s = 1"
proof (cases "s = []")
  case True
  then show ?thesis
    by (simp add: ratio_def calculate_ratio_def)
next
  case False
  have "blocks_loop s s [(0, length s, 0, length s)] [] = [(0, 0, length s)]"
    using False
    by (subst blocks_loop.simps) (simp add: find_longest_match_self blocks_loop.simps)
  then have "sizes (get_matching_blocks s s) = length s"
    by (simp add: sizes_get_matching_blocks)
  then show ?thesis
    using False by (simp add: ratio_def calculate_ratio_def sizes_def[symmetric])
qed

lemma overlap_self: "finite s1 \<Longrightarrow> s1 \<noteq> {} \<Longrightarrow> overlap s1 s1 = 1"
  by (simp add: overlap_def Let_def card_gt_0_iff)

lemma get_ngrams_nonempty: "n \<le> length t \<Longrightarrow> get_ngrams t n \<noteq> {}"
  by (simp add: get_ngrams_def)

lemma split_from_nonempty:
  "cur \<noteq> [] \<or> (\<exists>c\<in>set t. \<not> is_space c) \<Longrightarrow> split_from cur t \<noteq> []"
  by (induction t arbitrary: cur) auto

lemma similarity_self:
  assumes "3 \<le> length t" "\<exists>c\<in>set t. \<not> is_space c"
  shows "calculate_title_similarity t t = 100"
proof -
  have w: "set (split t) \<noteq> {}" using assms(2) split_from_nonempty[of "[]" t] by (simp add: split_def)
  have n: "get_ngrams t 3 \<noteq> {}" using assms(1) by (rule get_ngrams_nonempty)
  have "finite (get_ngrams t 3)" by (simp add: get_ngrams_def)
  with w n show ?thesis
    by (simp add: calculate_title_similarity_def Let_def ratio_self overlap_self)
qed

lemma strip_has_letter: "strip s \<noteq> [] \<Longrightarrow> \<exists>c\<in>set (strip s). \<not> is_space c"
proof -
  assume ne: "strip s \<noteq> []"
  let ?u = "dropWhile is_space (rev (dropWhile is_space s))"
  from ne have u: "?u \<noteq> []" by (simp add: strip_def)
  then have "\<not> is_space (hd ?u)" by (rule hd_dropWhile)
  moreover have "hd ?u \<in> set (strip s)" using u by (simp add: strip_def)
  ultimately show ?thesis by blast
qed

section \<open>Claims about the similarity scorer\<close>

text \<open>
  Claim C6, as the code has it: the score lies between 0 and 100, its word-overlap and
  trigram parts do not depend on the order of the two titles, and the score is the same in
  both orders whenever the sequence ratio of \<^verbatim>\<open>difflib\<close> is. The two ratios are the same
  quotient \<open>2 * matches / length\<close> with one length, so they are equal exactly when the two
  counts of matched characters are, and the score is then the same expression over the same
  three values.
\<close>

theorem similarity_bounded_and_symmetric_with_ratio:
  "0 \<le> calculate_title_similarity a b \<and> calculate_title_similarity a b \<le> 100
   \<and> overlap (set (split a)) (set (split b)) = overlap (set (split b)) (set (split a))
   \<and> overlap (get_ngrams a 3) (get_ngrams b 3) = overlap (get_ngrams b 3) (get_ngrams a 3)
   \<and> (ratio a b = ratio b a
        \<longrightarrow> calculate_title_similarity a b = calculate_title_similarity b a)"
proof -
  have w: "overlap (set (split a)) (set (split b)) = overlap (set (split b)) (set (split a))"
    by (rule overlap_sym)
  have n: "overlap (get_ngrams a 3) (get_ngrams b 3) = overlap (get_ngrams b 3) (get_ngrams a 3)"
    by (rule overlap_sym)
  have s: "calculate_title_similarity a b = calculate_title_similarity b a"
    if "ratio a b = ratio b a"
    using that w n by (simp add: calculate_title_similarity_def Let_def)
  from similarity_bounds[of a b] w n s show ?thesis
    by simp
qed

text \<open>
  An example: the titles \<open>night shift\<close> and \<open>nacht shift\<close> have the sequence ratio
  \<open>9 / 11\<close> in both orders, and so the same score.
\<close>

theorem similarity_bounded_and_symmetric_with_ratio_witness:
  "ratio ''night shift'' ''nacht shift'' = ratio ''nacht shift'' ''night shift''
   \<and> calculate_title_similarity ''night shift'' ''nacht shift''
       = calculate_title_similarity ''nacht shift'' ''night shift''
   \<and> calculate_title_similarity ''night shift'' ''nacht shift'' \<le> 100"
proof -
  have r: "ratio ''night shift'' ''nacht shift'' = ratio ''nacht shift'' ''night shift''"
    by code_simp
  note t = similarity_bounded_and_symmetric_with_ratio[of "''night shift''" "''nacht shift''"]
  have s: "calculate_title_similarity ''night shift'' ''nacht shift''
       = calculate_title_similarity ''nacht shift'' ''night shift''"
    by (rule t[THEN conjunct2, THEN conjunct2, THEN conjunct2, THEN conjunct2, THEN mp, OF r])
  have u: "calculate_title_similarity ''night shift'' ''nacht shift'' \<le> 100"
    by (rule t[THEN conjunct2, THEN conjunct1])
  show ?thesis
    by (intro conjI) (fact r s u)+
qed

text \<open>
  Claim C6 as stated fails: the one-word titles \<open>tide\<close> and \<open>diet\<close> score 10 in one order
  and 20 in the other. Against \<open>diet\<close> the first block of \<open>tide\<close> is its \<open>t\<close>, the last
  letter of \<open>diet\<close>, and nothing is left on its right; against \<open>tide\<close> the first block of
  \<open>diet\<close> is its \<open>d\<close>, and the \<open>e\<close> after it is matched as a second block.
\<close>

theorem similarity_not_symmetric:
  "calculate_title_similarity ''tide'' ''diet'' = 10
   \<and> calculate_title_similarity ''diet'' ''tide'' = 20
   \<and> calculate_title_similarity ''tide'' ''diet'' \<noteq> calculate_title_similarity ''diet'' ''tide''"
  by code_simp

text \<open>
  Claim C7, as the code has it: a normalised title of at least three characters scores 100
  against itself.
\<close>

theorem similarity_self_100:
  "3 \<le> length (normalize_title c) \<Longrightarrow>
   calculate_title_similarity (normalize_title c) (normalize_title c) = 100"
proof -
  assume len: "3 \<le> length (normalize_title c)"
  then have ne: "normalize_title c \<noteq> []" by auto
  have "\<exists>x\<in>set (normalize_title c). \<not> is_space x"
  proof (cases "isna c")
    case True
    with ne show ?thesis by (simp add: normalize_title_def)
  next
    case False
    with ne show ?thesis
      by (simp add: normalize_title_def Let_def strip_has_letter)
  qed
  with len show ?thesis by (rule similarity_self)
qed

theorem similarity_self_100_witness:
  "3 \<le> length (normalize_title (Str ''Health Systems''))
   \<and> calculate_title_similarity (normalize_title (Str ''Health Systems''))
        (normalize_title (Str ''Health Systems'')) = 100"
proof -
  have h: "3 \<le> length (normalize_title (Str ''Health Systems''))" by code_simp
  from similarity_self_100[OF h] h show ?thesis by simp
qed

text \<open>
  Claim C7 as stated fails for a normalised title of one or two characters: it has no
  trigram, the n-gram similarity is set to 0, and the score is 70.
\<close>

theorem similarity_self_short_title:
  "normalize_title (Str ''Hi'') = ''hi'' \<and> calculate_title_similarity ''hi'' ''hi'' = 70"
  by code_simp

section \<open>Claims about the normalisers\<close>

subsection \<open>What \<^verbatim>\<open>re.search\<close> finds\<close>

lemma match_lit_Some: "match_lit p t = Some rest \<Longrightarrow> t = p @ rest"
  by (induction p t rule: match_lit.induct) (auto split: if_splits)

lemma match_lit_append: "match_lit p (p @ rest) = Some rest"
  by (induction p) auto

lemma digit_is_doi_char: "is_digit c \<Longrightarrow> is_doi_char c"
  by (simp add: is_doi_char_def is_word_def)

lemma match_doi_core_Some:
  assumes "match_doi_core t = Some d"
  shows "doi_like d \<and> (\<exists>suf. t = d @ suf)"
proof -
  from assms obtain rest where r: "match_lit ''10.'' t = Some rest"
    by (auto simp: match_doi_core_def split: option.splits)
  let ?run = "takeWhile is_doi_char rest"
  let ?dig = "takeWhile is_digit rest"
  from assms r have d: "d = ''10.'' @ ?run" and l4: "4 \<le> length ?dig"
    and l5: "5 \<le> length ?run"
    by (auto simp: match_doi_core_def Let_def split: if_splits)
  have t: "t = ''10.'' @ rest" using match_lit_Some[OF r] .
  have dig: "list_all is_digit (take 4 ?run)"
    unfolding list_all_length
  proof (intro allI impI)
    fix j assume "j < length (take 4 ?run)"
    then have j: "j < 4" "j < length ?run" by auto
    with l4 have jd: "j < length ?dig" by simp
    have "take 4 ?run ! j = rest ! j" using j by (simp add: takeWhile_nth)
    also have "\<dots> = ?dig ! j" using jd by (simp add: takeWhile_nth)
    finally have "take 4 ?run ! j = ?dig ! j" .
    moreover have "is_digit (?dig ! j)" using jd nth_mem set_takeWhileD by metis
    ultimately show "is_digit (take 4 ?run ! j)" by simp
  qed
  have cs: "list_all is_doi_char (drop 4 ?run)"
    by (auto simp: list_all_iff dest!: in_set_dropD set_takeWhileD)
  have "d = ''10.'' @ take 4 ?run @ drop 4 ?run" using d by simp
  moreover have "4 \<le> length (take 4 ?run)" "drop 4 ?run \<noteq> []" using l5 by auto
  ultimately have "doi_like d" unfolding doi_like_def using dig cs by blast
  moreover have "t = d @ dropWhile is_doi_char rest" using t d by simp
  ultimately show ?thesis by blast
qed

lemma match_doi_core_complete:
  assumes "doi_like d"
  shows "match_doi_core (d @ suf) \<noteq> None"
proof -
  from assms obtain ds cs where d: "d = ''10.'' @ ds @ cs" and l: "4 \<le> length ds"
    and dig: "list_all is_digit ds" and ne: "cs \<noteq> []" and doi: "list_all is_doi_char cs"
    unfolding doi_like_def by blast
  let ?rest = "ds @ cs @ suf"
  have m: "match_lit ''10.'' (d @ suf) = Some ?rest"
    using match_lit_append[of "''10.''" ?rest] d by simp
  have "takeWhile is_digit ?rest = ds @ takeWhile is_digit (cs @ suf)"
    using dig by (simp add: list_all_iff)
  then have a: "4 \<le> length (takeWhile is_digit ?rest)" using l by simp
  have "takeWhile is_doi_char ((ds @ cs) @ suf) = (ds @ cs) @ takeWhile is_doi_char suf"
    using dig doi by (intro takeWhile_append2) (auto simp: list_all_iff digit_is_doi_char)
  then have b: "5 \<le> length (takeWhile is_doi_char ?rest)" using l ne
    by (cases cs) auto
  from m a b show ?thesis by (simp add: match_doi_core_def Let_def)
qed

lemma re_search_Some: "re_search pre t = Some (g0, g1) \<Longrightarrow> has_doi_like t"
proof (induction t)
  case Nil
  then obtain rest where "match_lit pre [] = Some rest" "match_doi_core rest = Some g1"
    by (auto simp: match_at_def split: option.splits)
  with match_lit_Some match_doi_core_Some show ?case
    by (metis Nil_is_append_conv has_doi_like_def append_Nil)
next
  case (Cons c cs)
  show ?case
  proof (cases "match_at pre (c # cs)")
    case None
    with Cons have "has_doi_like cs" by simp
    then obtain p d suf where "cs = p @ d @ suf" "doi_like d" unfolding has_doi_like_def by blast
    then have "c # cs = (c # p) @ d @ suf" by simp
    with \<open>doi_like d\<close> show ?thesis unfolding has_doi_like_def by blast
  next
    case (Some m)
    then obtain rest where r: "match_lit pre (c # cs) = Some rest" "match_doi_core rest = Some (snd m)"
      by (auto simp: match_at_def split: option.splits)
    from match_doi_core_Some[OF r(2)] obtain suf where "doi_like (snd m)" "rest = snd m @ suf" by blast
    with match_lit_Some[OF r(1)] show ?thesis unfolding has_doi_like_def by blast
  qed
qed

lemma re_search_complete: "doi_like d \<Longrightarrow> re_search [] (pre @ d @ suf) \<noteq> None"
proof (induction pre)
  case Nil
  obtain x where x: "match_doi_core (d @ suf) = Some x"
    using match_doi_core_complete[OF Nil, of suf] by auto
  then have m: "match_at [] (d @ suf) = Some (x, x)" by (simp add: match_at_def)
  then show ?case by (cases "d @ suf") auto
next
  case (Cons c pre)
  then show ?case by (auto split: option.splits)
qed

lemma has_doi_like_iff: "has_doi_like s \<longleftrightarrow> re_search [] s \<noteq> None"
proof
  assume "has_doi_like s"
  then show "re_search [] s \<noteq> None" unfolding has_doi_like_def using re_search_complete by blast
next
  assume "re_search [] s \<noteq> None"
  then show "has_doi_like s" using re_search_Some[of "[]" s] by auto
qed

lemma search_patterns_None: "\<not> has_doi_like t \<Longrightarrow> search_patterns ps t = None"
  by (induction ps) (auto split: option.splits dest: re_search_Some)

lemma strip_infix: "\<exists>a b. t = a @ strip t @ b"
proof -
  let ?u = "dropWhile is_space t"
  have "strip t @ rev (takeWhile is_space (rev ?u))
        = rev (takeWhile is_space (rev ?u) @ dropWhile is_space (rev ?u))"
    by (simp only: strip_def rev_append)
  also have "\<dots> = ?u" by (simp only: takeWhile_dropWhile_id rev_rev_ident)
  finally have "t = takeWhile is_space t @ strip t @ rev (takeWhile is_space (rev ?u))"
    by simp
  then show ?thesis by blast
qed

lemma has_doi_like_strip: "has_doi_like (strip t) \<Longrightarrow> has_doi_like t"
proof -
  assume "has_doi_like (strip t)"
  then obtain p d suf where "strip t = p @ d @ suf" "doi_like d" unfolding has_doi_like_def by blast
  moreover obtain a b where "t = a @ strip t @ b" using strip_infix by blast
  ultimately have "t = (a @ p) @ d @ (suf @ b)" by simp
  with \<open>doi_like d\<close> show ?thesis unfolding has_doi_like_def by blast
qed

lemma lower_char_upper: "is_upper c \<Longrightarrow> (of_char (lower_char c) :: nat) = of_char c + 32"
proof -
  assume u: "is_upper c"
  then have "(of_char c :: nat) + 32 < 256" by (simp add: is_upper_def Let_def)
  then have "((of_char c :: nat) + 32) mod 256 = of_char c + 32" by (rule mod_less)
  with u show ?thesis by (simp add: lower_char_def)
qed

lemma lower_char_digit: "is_digit (lower_char c) \<Longrightarrow> is_digit c"
proof (cases "is_upper c")
  case True
  assume "is_digit (lower_char c)"
  with lower_char_upper[OF True] True have False
    by (simp add: is_digit_def is_upper_def Let_def)
  then show ?thesis ..
next
  case False
  assume "is_digit (lower_char c)"
  with False show ?thesis by (simp add: lower_char_def)
qed

lemma lower_char_doi: "is_doi_char (lower_char c) \<Longrightarrow> is_doi_char c"
  by (cases "is_upper c") (auto simp: is_doi_char_def is_word_def lower_char_def)

lemma lower_char_fix:
  "x \<in> set ''10.'' \<Longrightarrow> lower_char c = x \<Longrightarrow> c = x"
proof (cases "is_upper c")
  case True
  assume x: "x \<in> set ''10.''" and l: "lower_char c = x"
  from lower_char_upper[OF True] l have "(of_char x :: nat) = of_char c + 32" by simp
  with True x have False by (auto simp: is_upper_def Let_def)
  then show ?thesis ..
next
  case False
  assume "lower_char c = x"
  with False show ?thesis by (simp add: lower_char_def)
qed

lemma lower_prefix: "lower p = ''10.'' \<Longrightarrow> p = ''10.''"
proof -
  assume a: "lower p = ''10.''"
  then obtain c1 c2 c3 where p: "p = [c1, c2, c3]"
    by (auto simp: lower_def map_eq_Cons_conv)
  with a show ?thesis
    using lower_char_fix[of "CHR ''1''" c1] lower_char_fix[of "CHR ''0''" c2]
      lower_char_fix[of "CHR ''.''" c3]
    by (simp add: lower_def)
qed

lemma lower_append_split:
  "lower t = x @ y \<Longrightarrow> \<exists>x' y'. t = x' @ y' \<and> lower x' = x \<and> lower y' = y"
  unfolding lower_def map_eq_append_conv by blast

lemma lower_all_digit: "list_all is_digit (lower ds) \<Longrightarrow> list_all is_digit ds"
  by (induction ds) (simp_all add: lower_def lower_char_digit)

lemma lower_all_doi: "list_all is_doi_char (lower cs) \<Longrightarrow> list_all is_doi_char cs"
  by (induction cs) (simp_all add: lower_def lower_char_doi)

lemma doi_like_lower: "doi_like (lower d) \<Longrightarrow> doi_like d"
proof -
  assume "doi_like (lower d)"
  then obtain ds cs where e: "lower d = ''10.'' @ (ds @ cs)" and l: "4 \<le> length ds"
    and dig: "list_all is_digit ds" and ne: "cs \<noteq> []" and doi: "list_all is_doi_char cs"
    unfolding doi_like_def by auto
  from lower_append_split[OF e] obtain p r where d1: "d = p @ r" "lower p = ''10.''" "lower r = ds @ cs"
    by blast
  from lower_append_split[OF d1(3)] obtain ds' cs' where d2: "r = ds' @ cs'" "lower ds' = ds" "lower cs' = cs"
    by blast
  have a: "list_all is_digit ds'" using dig d2(2) lower_all_digit by blast
  have b: "list_all is_doi_char cs'" using doi d2(3) lower_all_doi by blast
  have c: "4 \<le> length ds'" using l d2(2) by (auto simp: lower_def)
  have c': "cs' \<noteq> []" using ne d2(3) by (auto simp: lower_def)
  have p: "p = ''10.''" using d1(2) by (rule lower_prefix)
  have "d = ''10.'' @ ds' @ cs'" using d1(1) d2(1) p by simp
  with a b c c' show ?thesis unfolding doi_like_def by blast
qed

lemma has_doi_like_lower: "has_doi_like (lower t) \<Longrightarrow> has_doi_like t"
proof -
  assume "has_doi_like (lower t)"
  then obtain p d suf where e: "lower t = p @ (d @ suf)" and dl: "doi_like d"
    unfolding has_doi_like_def by blast
  from lower_append_split[OF e] obtain p' r where t1: "t = p' @ r" "lower r = d @ suf"
    by blast
  from lower_append_split[OF t1(2)] obtain d' suf' where t2: "r = d' @ suf'" "lower d' = d"
    by blast
  from dl t2(2) have "doi_like d'" using doi_like_lower by blast
  moreover have "t = p' @ d' @ suf'" using t1(1) t2(1) by simp
  ultimately show ?thesis unfolding has_doi_like_def by blast
qed

text \<open>
  Claim C5, as the code has it: for a text with no DOI-like part, the result is the
  lower-cased text without its surrounding whitespace (the last line of the function,
  \<^verbatim>\<open>return doi_str\<close>).
\<close>

theorem normalize_doi_without_doi:
  "\<not> has_doi_like s \<Longrightarrow> normalize_doi (Str s) = strip (lower s)"
proof -
  assume "\<not> has_doi_like s"
  then have "\<not> has_doi_like (strip (lower s))"
    using has_doi_like_strip has_doi_like_lower by blast
  then show ?thesis
    by (simp add: normalize_doi_def Let_def search_patterns_None)
qed

theorem normalize_doi_without_doi_witness:
  "\<not> has_doi_like ''PMID 12345'' \<and> normalize_doi (Str ''PMID 12345'') = ''pmid 12345''"
proof -
  have "re_search [] ''PMID 12345'' = None" by code_simp
  then have h: "\<not> has_doi_like ''PMID 12345''" by (simp add: has_doi_like_iff)
  have "strip (lower ''PMID 12345'') = ''pmid 12345''" by code_simp
  with normalize_doi_without_doi[OF h] h show ?thesis by simp
qed

text \<open>
  Claim C5 as stated fails: \<open>abc\<close> has no DOI-like part and is returned as it is.
\<close>

theorem normalize_doi_not_empty:
  "\<not> has_doi_like ''abc'' \<and> normalize_doi (Str ''abc'') = ''abc'' \<and> normalize_doi (Str ''abc'') \<noteq> []"
proof -
  have "re_search [] ''abc'' = None" by code_simp
  then have h: "\<not> has_doi_like ''abc''" by (simp add: has_doi_like_iff)
  have "normalize_doi (Str ''abc'') = ''abc''" by code_simp
  with h show ?thesis by simp
qed

subsection \<open>The first author's surname\<close>

lemma split_from_spaces: "list_all is_space ws \<Longrightarrow> split_from cur ws = (if cur = [] then [] else [rev cur])"
  by (induction ws arbitrary: cur) auto

lemma split_from_trailing: "list_all is_space ws \<Longrightarrow> split_from cur (s @ ws) = split_from cur s"
  by (induction s arbitrary: cur) (auto simp: split_from_spaces)

lemma split_from_leading: "split_from [] (dropWhile is_space s) = split_from [] s"
  by (induction s) auto

lemma split_strip: "split (strip s) = split s"
proof -
  let ?u = "dropWhile is_space s"
  let ?ws = "rev (takeWhile is_space (rev ?u))"
  have u: "?u = strip s @ ?ws"
  proof -
    have "strip s @ ?ws = rev (takeWhile is_space (rev ?u) @ dropWhile is_space (rev ?u))"
      by (simp only: strip_def rev_append)
    also have "\<dots> = ?u" by (simp only: takeWhile_dropWhile_id rev_rev_ident)
    finally show ?thesis by simp
  qed
  have ws: "list_all is_space ?ws"
    by (auto simp: list_all_iff dest: set_takeWhileD)
  have "split s = split_from [] ?u" by (simp add: split_def split_from_leading)
  also have "\<dots> = split_from [] (strip s @ ?ws)" using u by simp
  also have "\<dots> = split (strip s)" using ws by (simp add: split_from_trailing split_def)
  finally show ?thesis by simp
qed

lemma split_empty_iff: "split s = [] \<longleftrightarrow> list_all is_space s"
proof
  assume "split s = []"
  then show "list_all is_space s"
    using split_from_nonempty[of "[]" s] by (auto simp: split_def list_all_iff)
next
  assume "list_all is_space s"
  then show "split s = []" by (simp add: split_def split_from_spaces)
qed

lemma split_from_no_empty_word: "[] \<notin> set (split_from cur s)"
  by (induction s arbitrary: cur) auto

lemma space_not_sep: "is_space c \<Longrightarrow> c \<noteq> CHR '';'' \<and> c \<noteq> CHR '',''"
  by (auto simp: is_space_def)

lemma last_word_spec:
  "last_word seg = (case split seg of [] \<Rightarrow> [] | w # ws \<Rightarrow> last (w # ws))"
proof (cases "seg = []")
  case True
  then show ?thesis by (simp add: last_word_def split_def)
next
  case False
  then show ?thesis
    by (cases "split seg") (simp_all add: last_word_def split_strip)
qed

lemma first_segment_blank: "blank s \<Longrightarrow> first_segment s = Inl IndexError"
proof -
  assume b: "blank s"
  then have sp: "list_all is_space s" and ne: "s \<noteq> []" by (auto simp: blank_def)
  have "CHR '';'' \<notin> set s" "CHR '','' \<notin> set s"
    using sp space_not_sep by (auto simp: list_all_iff)
  moreover have "split s = []" using sp by (simp add: split_empty_iff)
  ultimately show ?thesis using ne by (simp add: first_segment_def)
qed

lemma first_segment_not_blank: "\<not> blank s \<Longrightarrow> first_segment s = Inr (first_segment_spec s)"
proof -
  assume nb: "\<not> blank s"
  have c: "1 < count_list s CHR '','' \<Longrightarrow> CHR '','' \<in> set s"
    using count_list_0_iff[of s "CHR '',''"] by auto
  show ?thesis
  proof (cases "split s")
    case Nil
    then have "list_all is_space s" by (simp add: split_empty_iff)
    with nb have "s = []" by (simp add: blank_def)
    then show ?thesis by (simp add: first_segment_def first_segment_spec_def split_def)
  next
    case (Cons w ws)
    then have ne: "s \<noteq> []" by (auto simp: split_def)
    show ?thesis
    proof (cases "1 < count_list s CHR '',''")
      case True
      with c have "CHR '','' \<in> set s" by simp
      with True show ?thesis
        by (simp add: first_segment_def first_segment_spec_def before_sep_def)
    next
      case False
      with Cons ne show ?thesis
        by (simp add: first_segment_def first_segment_spec_def before_sep_def)
    qed
  qed
qed

lemma extract_first_author_spec:
  "extract_first_author raw =
     (if \<not> isna raw \<and> blank (py_str raw) then Inl IndexError
      else Inr (extract_first_author_surname_spec raw))"
proof (cases "isna raw")
  case True
  then show ?thesis by (simp add: extract_first_author_def extract_first_author_surname_spec_def)
next
  case False
  show ?thesis
  proof (cases "blank (py_str raw)")
    case True
    with False show ?thesis by (simp add: extract_first_author_def first_segment_blank)
  next
    case nb: False
    with False show ?thesis
      by (simp add: extract_first_author_def first_segment_not_blank last_word_spec
          extract_first_author_surname_spec_def)
  qed
qed

text \<open>
  Claim C8: an author text that is not empty and all whitespace has no first word, and
  \<^verbatim>\<open>authors_str.split()[0]\<close> raises IndexError; the guard \<^verbatim>\<open>if authors_str else ''\<close> only
  covers the empty text. On every other input the code returns what the claim describes
  (lemma \<open>extract_first_author_spec\<close>).
\<close>

theorem extract_first_author_blank:
  "extract_first_author (Str ''  '') = Inl IndexError"
  by code_simp

section \<open>Properties of the record matcher\<close>

subsection \<open>One candidate, one result row\<close>

text \<open>
  The row a candidate gets does not depend on the rows collected before it, and every
  path through the loop body appends one row: the first three tiers by their
  \<^verbatim>\<open>append\<close> before \<^verbatim>\<open>continue\<close>, the author tier by its \<^verbatim>\<open>append\<close> before \<^verbatim>\<open>break\<close>, which
  leaves a status other than \<^verbatim>\<open>no_match\<close>, and the last test otherwise.
\<close>

lemma update_match_simps [simp]:
  "search_idx (update_match mi st c ty i r d) = search_idx mi"
  "match_status (update_match mi st c ty i r d) = st"
  "match_type (update_match mi st c ty i r d) = ty"
  "match_confidence (update_match mi st c ty i r d) = c"
  "reference_idx (update_match mi st c ty i r d) = Some i"
  by (simp_all add: update_match_def)

lemma initial_match_info_simps [simp]:
  "search_idx (initial_match_info idx row) = idx"
  "match_status (initial_match_info idx row) = ''no_match''"
  "match_type (initial_match_info idx row) = []"
  by (simp_all add: initial_match_info_def)

lemma author_scan_append:
  "author_scan D row a yr refs mi results =
     (case author_scan D row a yr refs mi [] of
        Inl e \<Rightarrow> Inl e
      | Inr (m, rs) \<Rightarrow> Inr (m, results @ rs))"
proof (induction refs)
  case Nil
  show ?case by simp
next
  case (Cons p refs)
  obtain i r where p: "p = (i, r)" by (cases p)
  show ?case
  proof (cases "lower a = lower (first_author r) \<and> yr = get_str (Publication_Year r)")
    case True
    have eq: "author_scan D row a yr ((i, r) # refs) mi res =
        (case cell_lower (get_or_empty (journal row)) of
           Inl e \<Rightarrow> Inl e
         | Inr j \<Rightarrow>
             (case cell_lower (get_or_empty (Journal_Venue r)) of
                Inl e \<Rightarrow> Inl e
              | Inr v \<Rightarrow>
                  (let confidence = match_thresholds D ''author_year'' + (if j = v then 10 else 0);
                       mi' = update_match mi ''possible_match'' confidence ''author_year'' i r
                               (Text (''Author + year match: '' @ a @ '' ('' @ yr @ '')''))
                   in Inr (mi', res @ [mi']))))" for res
      using True by (auto simp: Let_def split: sum.splits)
    show ?thesis
      unfolding p eq by (simp add: Let_def split: sum.splits)
  next
    case False
    have eq: "author_scan D row a yr ((i, r) # refs) mi res = author_scan D row a yr refs mi res"
      for res using False by (auto simp: Let_def)
    show ?thesis unfolding p eq by (rule Cons.IH)
  qed
qed

lemma author_scan_result:
  "author_scan D row a yr refs mi [] = Inr (m, rs) \<Longrightarrow>
     (m = mi \<and> rs = []) \<or>
     (rs = [m] \<and> match_status m = ''possible_match'' \<and> match_type m = ''author_year''
      \<and> search_idx m = search_idx mi)"
proof (induction refs)
  case Nil
  then show ?case by simp
next
  case (Cons p refs)
  obtain i r where p: "p = (i, r)" by (cases p)
  show ?case
  proof (cases "lower a = lower (first_author r) \<and> yr = get_str (Publication_Year r)")
    case True
    with Cons.prems show ?thesis
      unfolding p by (auto simp: Let_def split: sum.splits)
  next
    case False
    with Cons.prems have "author_scan D row a yr refs mi [] = Inr (m, rs)"
      unfolding p by (auto simp: Let_def)
    then show ?thesis by (rule Cons.IH)
  qed
qed

lemma author_tier_append:
  "author_tier D row yr mi results =
     (case author_tier D row yr mi [] of Inl e \<Rightarrow> Inl e | Inr rs \<Rightarrow> Inr (results @ rs))"
proof (cases "extract_first_author (get_or_empty (authors row))")
  case (Inl e)
  then show ?thesis by (simp add: author_tier_def)
next
  case (Inr a)
  show ?thesis
  proof (cases "a \<noteq> [] \<and> yr \<noteq> []")
    case True
    then show ?thesis
      using Inr author_scan_append[of D row a yr "enumerate 0 (reference_df D)" mi results]
      by (auto simp: author_tier_def split: sum.splits)
  next
    case False
    then show ?thesis using Inr by (auto simp: author_tier_def)
  qed
qed

lemma author_tier_result:
  assumes "author_tier D row yr mi [] = Inr rs" "match_status mi = ''no_match''"
  shows "\<exists>m. rs = [m] \<and> search_idx m = search_idx mi
           \<and> ((m = mi) \<or> (match_status m = ''possible_match'' \<and> match_type m = ''author_year''
                 \<and> yr \<noteq> []))"
proof -
  from assms(1) obtain a where a: "extract_first_author (get_or_empty (authors row)) = Inr a"
    by (auto simp: author_tier_def split: sum.splits)
  show ?thesis
  proof (cases "a \<noteq> [] \<and> yr \<noteq> []")
    case True
    with assms(1) a obtain m rs' where s: "author_scan D row a yr (enumerate 0 (reference_df D)) mi [] = Inr (m, rs')"
      and rs: "rs = (if match_status m = ''no_match'' then rs' @ [m] else rs')"
      by (auto simp: author_tier_def split: sum.splits)
    from author_scan_result[OF s] rs assms(2) True show ?thesis by auto
  next
    case False
    with assms a show ?thesis by (auto simp: author_tier_def)
  qed
qed

lemma doi_tier_result:
  "doi_tier D row mi = Inr (Some m) \<Longrightarrow>
     search_idx m = search_idx mi \<and> match_type m = ''doi'' \<and> match_status m = ''definite_match''"
  by (auto simp: doi_tier_def Let_def split: option.splits if_splits sum.splits)

lemma exact_tier_result:
  "exact_tier D t yr mi = Inr (Some m) \<Longrightarrow>
     search_idx m = search_idx mi \<and> match_type m = ''title_year_exact''
     \<and> match_status m = ''very_likely_match''"
  by (auto simp: exact_tier_def split: option.splits list.splits sum.splits)

lemma fuzzy_tier_result:
  "fuzzy_tier pf D t yr mi = Inr (Some m) \<Longrightarrow>
     search_idx m = search_idx mi \<and> match_type m = ''title_fuzzy''"
  by (auto simp: fuzzy_tier_def Let_def split: option.splits if_splits sum.splits prod.splits)

lemma title_tiers_result:
  "title_tiers pf D t yr mi = Inr (Some m) \<Longrightarrow>
     search_idx m = search_idx mi \<and> (match_type m = ''title_year_exact'' \<or> match_type m = ''title_fuzzy'')"
  by (auto simp: title_tiers_def split: if_splits sum.splits option.splits
      dest: exact_tier_result fuzzy_tier_result)

lemma process_row_append:
  "process_row pf D r results =
     (case process_row pf D r [] of Inl e \<Rightarrow> Inl e | Inr rs \<Rightarrow> Inr (results @ rs))"
proof -
  obtain idx row where r: "r = (idx, row)" by (cases r)
  let ?mi = "initial_match_info idx row"
  let ?yr = "get_str (year row)"
  let ?t = "normalize_title (get_or_empty (title row))"
  show ?thesis
  proof (cases "doi_tier D row ?mi")
    case (Inl e)
    then show ?thesis by (simp add: process_row_def r Let_def)
  next
    case (Inr dr)
    show ?thesis
    proof (cases dr)
      case (Some m)
      with Inr show ?thesis by (simp add: process_row_def r Let_def)
    next
      case None
      show ?thesis
      proof (cases "title_tiers pf D ?t ?yr ?mi")
        case (Inl e)
        with Inr None show ?thesis by (simp add: process_row_def r Let_def)
      next
        case tr: (Inr tr)
        show ?thesis
        proof (cases tr)
          case (Some m)
          with Inr None tr show ?thesis by (simp add: process_row_def r Let_def)
        next
          case n2: None
          have "process_row pf D r res = author_tier D row ?yr ?mi res" for res
            using Inr None tr n2 by (simp add: process_row_def r Let_def)
          then show ?thesis
            using author_tier_append[of D row ?yr ?mi results] by simp
        qed
      qed
    qed
  qed
qed

lemma process_row_result:
  assumes "process_row pf D (idx, row) [] = Inr rs"
  shows "\<exists>m. rs = [m] \<and> search_idx m = idx"
proof -
  let ?mi = "initial_match_info idx row"
  let ?yr = "get_str (year row)"
  let ?t = "normalize_title (get_or_empty (title row))"
  from assms obtain dr where dr: "doi_tier D row ?mi = Inr dr"
    by (auto simp: process_row_def Let_def split: sum.splits)
  show ?thesis
  proof (cases dr)
    case (Some m)
    with assms dr doi_tier_result[of D row ?mi m] show ?thesis
      by (auto simp: process_row_def Let_def)
  next
    case None
    with assms dr obtain tr where tr: "title_tiers pf D ?t ?yr ?mi = Inr tr"
      by (auto simp: process_row_def Let_def split: sum.splits)
    show ?thesis
    proof (cases tr)
      case (Some m)
      with assms dr None tr title_tiers_result[of pf D ?t ?yr ?mi m] show ?thesis
        by (auto simp: process_row_def Let_def)
    next
      case n2: None
      with assms dr None tr have "author_tier D row ?yr ?mi [] = Inr rs"
        by (simp add: process_row_def Let_def)
      from author_tier_result[OF this] show ?thesis by auto
    qed
  qed
qed

lemma find_matches_loop_iff:
  "(find_matches_loop pf D df results = Inr rs) =
     (\<exists>ms. rs = results @ ms \<and> length ms = length df
        \<and> (\<forall>i<length df. process_row pf D (df ! i) [] = Inr [ms ! i]))"
proof (induction df arbitrary: results)
  case Nil
  then show ?case by auto
next
  case (Cons r df)
  obtain idx row where r: "r = (idx, row)" by (cases r)
  show ?case
  proof (cases "process_row pf D r []")
    case (Inl e)
    then have "process_row pf D r results = Inl e"
      using process_row_append[of pf D r results] by simp
    with Inl show ?thesis by (auto simp: nth_Cons split: nat.splits)
  next
    case (Inr one)
    then obtain m where m: "one = [m]" using process_row_result[of pf D idx row one] r by auto
    have step: "process_row pf D r results = Inr (results @ [m])"
      using process_row_append[of pf D r results] Inr m by simp
    show ?thesis
    proof
      assume "find_matches_loop pf D (r # df) results = Inr rs"
      with step have "find_matches_loop pf D df (results @ [m]) = Inr rs" by simp
      with Cons.IH[of "results @ [m]"] obtain ms where ms: "rs = (results @ [m]) @ ms"
        "length ms = length df" "\<forall>i<length df. process_row pf D (df ! i) [] = Inr [ms ! i]"
        by blast
      have "\<forall>i<length (r # df). process_row pf D ((r # df) ! i) [] = Inr [(m # ms) ! i]"
        using ms(3) Inr m by (auto simp: nth_Cons split: nat.splits)
      with ms(1,2) show "\<exists>ms. rs = results @ ms \<and> length ms = length (r # df)
        \<and> (\<forall>i<length (r # df). process_row pf D ((r # df) ! i) [] = Inr [ms ! i])"
        by (intro exI[of _ "m # ms"]) simp
    next
      assume "\<exists>ms. rs = results @ ms \<and> length ms = length (r # df)
        \<and> (\<forall>i<length (r # df). process_row pf D ((r # df) ! i) [] = Inr [ms ! i])"
      then obtain ms where ms: "rs = results @ ms" "length ms = length (r # df)"
        "\<forall>i<length (r # df). process_row pf D ((r # df) ! i) [] = Inr [ms ! i]" by blast
      then obtain m' ms' where c: "ms = m' # ms'" by (cases ms) auto
      from ms(3) have "process_row pf D r [] = Inr [ms ! 0]" by auto
      with Inr m c have mm: "m' = m" by simp
      have "\<forall>i<length df. process_row pf D (df ! i) [] = Inr [ms' ! i]"
      proof (intro allI impI)
        fix i assume "i < length df"
        then have "Suc i < length (r # df)" by simp
        with ms(3) have "process_row pf D ((r # df) ! Suc i) [] = Inr [ms ! Suc i]" by blast
        then show "process_row pf D (df ! i) [] = Inr [ms' ! i]" using c by simp
      qed
      with Cons.IH[of "results @ [m]" ] ms(1,2) c mm
      have "find_matches_loop pf D df (results @ [m]) = Inr rs" by auto
      with step show "find_matches_loop pf D (r # df) results = Inr rs" by simp
    qed
  qed
qed

lemma find_matches_iff:
  "(find_matches pf D df = Inr rs) =
     (length rs = length df \<and> (\<forall>i<length df. process_row pf D (df ! i) [] = Inr [rs ! i]))"
  by (auto simp: find_matches_def find_matches_loop_iff)

lemma process_row_cases:
  assumes "process_row pf D (idx, row) [] = Inr rs"
  shows "\<exists>m. rs = [m] \<and> search_idx m = idx \<and>
           (doi_tier D row (initial_match_info idx row) = Inr (Some m)
            \<or> title_tiers pf D (normalize_title (get_or_empty (title row))) (get_str (year row))
                 (initial_match_info idx row) = Inr (Some m)
            \<or> m = initial_match_info idx row
            \<or> (match_status m = ''possible_match'' \<and> match_type m = ''author_year''
                \<and> get_str (year row) \<noteq> []))"
proof -
  let ?mi = "initial_match_info idx row"
  let ?yr = "get_str (year row)"
  let ?t = "normalize_title (get_or_empty (title row))"
  from assms obtain dr where dr: "doi_tier D row ?mi = Inr dr"
    by (auto simp: process_row_def Let_def split: sum.splits)
  show ?thesis
  proof (cases dr)
    case (Some m)
    with assms dr doi_tier_result[of D row ?mi m] show ?thesis
      by (auto simp: process_row_def Let_def)
  next
    case None
    with assms dr obtain tr where tr: "title_tiers pf D ?t ?yr ?mi = Inr tr"
      by (auto simp: process_row_def Let_def split: sum.splits)
    show ?thesis
    proof (cases tr)
      case (Some m)
      with assms dr None tr title_tiers_result[of pf D ?t ?yr ?mi m] show ?thesis
        by (auto simp: process_row_def Let_def)
    next
      case n2: None
      with assms dr None tr have "author_tier D row ?yr ?mi [] = Inr rs"
        by (simp add: process_row_def Let_def)
      from author_tier_result[OF this] show ?thesis by auto
    qed
  qed
qed

lemma find_matches_row:
  assumes "find_matches pf D df = Inr rs" "i < length df" "df ! i = (idx, row)"
  shows "process_row pf D (idx, row) [] = Inr [rs ! i]"
  using assms by (auto simp: find_matches_iff)

subsection \<open>The DOI lookup\<close>

lemma prepare_rows_doi:
  "prepare_rows reference = Inr rows \<Longrightarrow>
     map doi_normalized rows = map (\<lambda>r. normalize_doi (DOI_URL r)) reference"
proof (induction reference arbitrary: rows)
  case Nil
  then show ?case by auto
next
  case (Cons r reference)
  then show ?case by (auto split: sum.splits)
qed

lemma doi_fold_other:
  "k \<notin> doi_normalized ` set (rows :: prepared_row list) \<Longrightarrow>
     fold (\<lambda>(idx, row) m. m(doi_normalized row \<mapsto> idx)) (enumerate n rows) m0 k = m0 k"
  by (induction rows arbitrary: n m0) auto

lemma doi_fold_found:
  "k \<in> doi_normalized ` set (rows :: prepared_row list) \<Longrightarrow>
     \<exists>j. fold (\<lambda>(idx, row) m. m(doi_normalized row \<mapsto> idx)) (enumerate n rows) m0 k = Some j
         \<and> n \<le> j \<and> j < n + length rows"
proof (induction rows arbitrary: n m0)
  case Nil
  then show ?case by simp
next
  case (Cons r rows)
  define g :: "nat \<times> prepared_row \<Rightarrow> (string \<rightharpoonup> nat) \<Rightarrow> (string \<rightharpoonup> nat)"
    where "g = (\<lambda>(idx, row) m. m(doi_normalized row \<mapsto> idx))"
  have step: "fold g (enumerate n (r # rows)) m0 = fold g (enumerate (Suc n) rows) (m0(doi_normalized r \<mapsto> n))"
    by (simp add: g_def)
  show ?case
  proof (cases "k \<in> doi_normalized ` set rows")
    case True
    from Cons.IH[OF True, of "Suc n" "m0(doi_normalized r \<mapsto> n)"]
    obtain j where "fold g (enumerate (Suc n) rows) (m0(doi_normalized r \<mapsto> n)) k = Some j"
      "Suc n \<le> j" "j < Suc n + length rows" unfolding g_def by blast
    then have "fold g (enumerate n (r # rows)) m0 k = Some j \<and> n \<le> j \<and> j < n + length (r # rows)"
      unfolding step by simp
    then show ?thesis unfolding g_def by blast
  next
    case False
    with Cons.prems have k: "k = doi_normalized r" by auto
    have "fold g (enumerate (Suc n) rows) (m0(doi_normalized r \<mapsto> n)) k = (m0(doi_normalized r \<mapsto> n)) k"
      unfolding g_def by (rule doi_fold_other[OF False])
    then have "fold g (enumerate n (r # rows)) m0 k = Some n \<and> n \<le> n \<and> n < n + length (r # rows)"
      unfolding step using k by simp
    then show ?thesis unfolding g_def by blast
  qed
qed

lemma build_doi_lookup_found:
  "k \<in> doi_normalized ` set rows \<Longrightarrow> \<exists>j. build_doi_lookup rows k = Some j \<and> j < length rows"
  using doi_fold_found[of k rows 0 Map.empty] by (auto simp: build_doi_lookup_def)

lemma init_doi_lookup:
  assumes "init_deduplicator reference config = Inr D" "r \<in> set reference"
  shows "\<exists>j. doi_lookup D (normalize_doi (DOI_URL r)) = Some j \<and> j < length (reference_df D)"
proof -
  from assms(1) obtain rows where rows: "prepare_rows reference = Inr rows"
    and D: "D = \<lparr>reference_df = rows, match_thresholds = config,
               doi_lookup = build_doi_lookup rows,
               title_year_lookup = build_title_year_lookup rows\<rparr>"
    by (auto simp: init_deduplicator_def split: sum.splits)
  have "normalize_doi (DOI_URL r) \<in> set (map (\<lambda>r. normalize_doi (DOI_URL r)) reference)"
    using assms(2) by auto
  then have "normalize_doi (DOI_URL r) \<in> doi_normalized ` set rows"
    using prepare_rows_doi[OF rows] by (metis set_map)
  from build_doi_lookup_found[OF this] show ?thesis by (simp add: D)
qed

lemma doi_tier_hit:
  assumes "doi row = Some d" "truthy d" "normalize_doi d \<noteq> []"
    and "doi_lookup D (normalize_doi d) = Some j" "j < length (reference_df D)"
  shows "doi_tier D row mi =
     Inr (Some (update_match mi ''definite_match'' (match_thresholds D ''doi'') ''doi'' j
                  (reference_df D ! j) (Text (''DOI match: '' @ normalize_doi d))))"
  using assms by (simp add: doi_tier_def Let_def loc_def)

lemma process_row_doi:
  assumes "doi_tier D row (initial_match_info idx row) = Inr (Some m)"
  shows "process_row pf D (idx, row) results = Inr (results @ [m])"
  using assms by (simp add: process_row_def Let_def)

subsection \<open>The fuzzy scan\<close>

lemma year_skip_empty [simp]: "year_skip pf [] ref_year = Inr False"
  by (simp add: year_skip_def)

lemma year_skip_far:
  assumes "pf [] = Value_Error" "pf yr = Parsed y" "pf ref_year = Parsed r" "1 < \<bar>y - r\<bar>"
  shows "year_skip pf yr ref_year = Inr True"
proof -
  from assms(1,2) have "yr \<noteq> []" by auto
  moreover from assms(1,3) have "ref_year \<noteq> []" by auto
  ultimately show ?thesis using assms(2-4) by (simp add: year_skip_def)
qed

lemma fuzzy_scan_all_far:
  assumes "pf [] = Value_Error" "pf yr = Parsed y"
    and "\<forall>p\<in>set refs. \<exists>r. pf (get_str (Publication_Year (snd p))) = Parsed r \<and> 1 < \<bar>y - r\<bar>"
  shows "fuzzy_scan pf t yr refs best = Inr best"
  using assms(3)
proof (induction refs)
  case Nil
  show ?case by (cases best) simp
next
  case (Cons p refs)
  obtain i rr where p: "p = (i, rr)" by (cases p)
  obtain bm bs where b: "best = (bm, bs)" by (cases best)
  from Cons.prems p obtain r where "pf (get_str (Publication_Year rr)) = Parsed r" "1 < \<bar>y - r\<bar>"
    by auto
  then have skip: "year_skip pf yr (get_str (Publication_Year rr)) = Inr True"
    using year_skip_far[OF assms(1,2)] by blast
  have "fuzzy_scan pf t yr (p # refs) best = fuzzy_scan pf t yr refs best"
    by (simp add: p b skip)
  also have "\<dots> = Inr best" using Cons.prems by (intro Cons.IH) simp
  finally show ?case .
qed

lemma fuzzy_scan_no_year:
  "fuzzy_scan pf t [] refs best =
     Inr (fold (\<lambda>(ref_idx, ref_row) (best_match, best_score).
                  if best_score < calculate_title_similarity t (title_normalized ref_row)
                  then (Some ref_idx, calculate_title_similarity t (title_normalized ref_row))
                  else (best_match, best_score)) refs best)"
proof (induction refs arbitrary: best)
  case Nil
  show ?case by (cases best) simp
next
  case (Cons p refs)
  obtain i rr where p: "p = (i, rr)" by (cases p)
  obtain bm bs where b: "best = (bm, bs)" by (cases best)
  show ?case by (simp add: p b Let_def Cons.IH)
qed

lemma fuzzy_tier_all_far:
  assumes "pf [] = Value_Error" "pf yr = Parsed y"
    and "\<forall>p\<in>set (enumerate 0 (reference_df D)).
           \<exists>r. pf (get_str (Publication_Year (snd p))) = Parsed r \<and> 1 < \<bar>y - r\<bar>"
  shows "fuzzy_tier pf D t yr mi \<noteq> Inr (Some m)"
  using fuzzy_scan_all_far[OF assms, of t "(None, 0)"]
  by (simp add: fuzzy_tier_def)

lemma title_fuzzy_from_fuzzy_tier:
  assumes "process_row pf D (idx, row) [] = Inr [m]" "match_type m = ''title_fuzzy''"
  shows "fuzzy_tier pf D (normalize_title (get_or_empty (title row))) (get_str (year row))
           (initial_match_info idx row) = Inr (Some m)"
proof -
  let ?mi = "initial_match_info idx row"
  from process_row_cases[OF assms(1)]
  have c: "doi_tier D row ?mi = Inr (Some m)
        \<or> title_tiers pf D (normalize_title (get_or_empty (title row))) (get_str (year row)) ?mi = Inr (Some m)
        \<or> m = ?mi
        \<or> (match_status m = ''possible_match'' \<and> match_type m = ''author_year'' \<and> get_str (year row) \<noteq> [])"
    by auto
  have "\<not> doi_tier D row ?mi = Inr (Some m)"
    using doi_tier_result[of D row ?mi m] assms(2) by auto
  moreover have "m \<noteq> ?mi" using assms(2) by auto
  moreover have "\<not> (match_type m = ''author_year'')" using assms(2) by simp
  ultimately have t: "title_tiers pf D (normalize_title (get_or_empty (title row))) (get_str (year row)) ?mi = Inr (Some m)"
    using c by blast
  then show ?thesis
    using exact_tier_result[of D _ _ ?mi m] assms(2)
    by (auto simp: title_tiers_def split: if_splits sum.splits option.splits)
qed

lemma author_year_needs_year:
  assumes "process_row pf D (idx, row) [] = Inr [m]" "match_type m = ''author_year''"
  shows "get_str (year row) \<noteq> []"
proof -
  let ?mi = "initial_match_info idx row"
  from process_row_cases[OF assms(1)]
  have c: "doi_tier D row ?mi = Inr (Some m)
        \<or> title_tiers pf D (normalize_title (get_or_empty (title row))) (get_str (year row)) ?mi = Inr (Some m)
        \<or> m = ?mi
        \<or> (match_status m = ''possible_match'' \<and> match_type m = ''author_year'' \<and> get_str (year row) \<noteq> [])"
    by auto
  have "\<not> doi_tier D row ?mi = Inr (Some m)"
    using doi_tier_result[of D row ?mi m] assms(2) by auto
  moreover have "m \<noteq> ?mi" using assms(2) by auto
  moreover have "\<not> title_tiers pf D (normalize_title (get_or_empty (title row))) (get_str (year row)) ?mi = Inr (Some m)"
    using title_tiers_result[of pf D _ _ ?mi m] assms(2) by auto
  ultimately show ?thesis using c by blast
qed

subsection \<open>The examples evaluated\<close>

lemma sample_prepare: "prepare_rows sample_reference = Inr sample_rows"
  by code_simp

lemma sample_init: "init_deduplicator sample_reference sample_config = Inr sample_dedup"
  by (simp add: init_deduplicator_def sample_prepare sample_dedup_def)

lemma sample_doi: "find_matches sample_int_float sample_dedup [(0, cand_doi)] =
    Inr [update_match (initial_match_info 0 cand_doi) ''definite_match'' 100 ''doi'' 0
           (sample_rows ! 0) (Text ''DOI match: 10.1377/x'')]"
  by code_simp

lemma sample_2025: "find_matches sample_int_float sample_dedup [(0, cand_2025)] =
    Inr [initial_match_info 0 cand_2025]"
  by code_simp

lemma sample_no_year: "find_matches sample_int_float sample_dedup [(0, cand_no_year)] =
    Inr [update_match (initial_match_info 0 cand_no_year) ''very_likely_match'' 100 ''title_fuzzy'' 0
           (sample_rows ! 0) (Title_similarity 100)]"
  by code_simp

lemma sample_two: "find_matches sample_int_float sample_dedup [(0, cand_doi), (1, cand_empty)] =
    Inr [update_match (initial_match_info 0 cand_doi) ''definite_match'' 100 ''doi'' 0
           (sample_rows ! 0) (Text ''DOI match: 10.1377/x''),
         initial_match_info 1 cand_empty]"
  by code_simp

lemma no_doi_prepare: "prepare_rows no_doi_reference = Inr no_doi_rows"
  by code_simp

lemma no_doi_init: "init_deduplicator no_doi_reference sample_config = Inr no_doi_dedup"
  by (simp add: init_deduplicator_def no_doi_prepare no_doi_dedup_def)

section \<open>Claims about the record matcher\<close>

text \<open>
  Claim C1, as the code has it: a candidate whose \<^verbatim>\<open>doi\<close> cell is true and whose normalised
  DOI is not empty and is the normalised DOI of a reference row gets a row with
  \<^verbatim>\<open>match_type = 'doi'\<close> and \<^verbatim>\<open>match_status = 'definite_match'\<close>, whatever its title and its
  other cells are: the row is appended without an exception, and it is the candidate's row
  in the result of every batch that holds the candidate.
\<close>

theorem doi_tier_decides_first:
  assumes "init_deduplicator reference config = Inr D"
    and "doi row = Some d" "truthy d" "normalize_doi d \<noteq> []"
    and "r \<in> set reference" "normalize_doi (DOI_URL r) = normalize_doi d"
  shows "(\<exists>m. process_row pf D (idx, row) results = Inr (results @ [m])
              \<and> match_type m = ''doi'' \<and> match_status m = ''definite_match'')
       \<and> (\<forall>df rs i. find_matches pf D df = Inr rs \<and> i < length df \<and> df ! i = (idx, row)
              \<longrightarrow> match_type (rs ! i) = ''doi'' \<and> match_status (rs ! i) = ''definite_match'')"
proof -
  let ?mi = "initial_match_info idx row"
  from init_doi_lookup[OF assms(1,5)] assms(6)
  obtain j where j: "doi_lookup D (normalize_doi d) = Some j" "j < length (reference_df D)"
    by auto
  define m where "m = update_match ?mi ''definite_match'' (match_thresholds D ''doi'') ''doi'' j
                  (reference_df D ! j) (Text (''DOI match: '' @ normalize_doi d))"
  have hit: "doi_tier D row ?mi = Inr (Some m)"
    unfolding m_def by (rule doi_tier_hit[OF assms(2-4) j])
  have row: "process_row pf D (idx, row) res = Inr (res @ [m])" for res
    by (rule process_row_doi[OF hit])
  have m: "match_type m = ''doi''" "match_status m = ''definite_match''"
    by (simp_all add: m_def)
  have batch: "match_type (rs ! i) = ''doi'' \<and> match_status (rs ! i) = ''definite_match''"
    if "find_matches pf D df = Inr rs \<and> i < length df \<and> df ! i = (idx, row)" for df rs i
  proof -
    from that have "process_row pf D (idx, row) [] = Inr [rs ! i]"
      using find_matches_row by blast
    with row[of "[]"] have "rs ! i = m" by simp
    with m show ?thesis by simp
  qed
  from row[of results] m batch show ?thesis by blast
qed

text \<open>
  An example: the candidate has the DOI of the reference row in upper case and the title
  \<open>Zebra\<close>.
\<close>

theorem doi_tier_decides_first_witness:
  "init_deduplicator sample_reference sample_config = Inr sample_dedup
   \<and> doi cand_doi = Some (Str ''10.1377/X'') \<and> truthy (Str ''10.1377/X'')
   \<and> normalize_doi (Str ''10.1377/X'') \<noteq> []
   \<and> normalize_doi (DOI_URL (hd sample_reference)) = normalize_doi (Str ''10.1377/X'')
   \<and> normalize_title (Str ''Zebra'') \<noteq> normalize_title (Title (hd sample_reference))
   \<and> (\<exists>m. process_row sample_int_float sample_dedup (0, cand_doi) [] = Inr [m]
          \<and> match_type m = ''doi'' \<and> match_status m = ''definite_match'')"
proof -
  have a: "doi cand_doi = Some (Str ''10.1377/X'')" by (simp add: cand_doi_def)
  have b: "truthy (Str ''10.1377/X'')" by simp
  have c: "normalize_doi (Str ''10.1377/X'') \<noteq> []" by code_simp
  have d: "hd sample_reference \<in> set sample_reference" by (simp add: sample_reference_def)
  have e: "normalize_doi (DOI_URL (hd sample_reference)) = normalize_doi (Str ''10.1377/X'')"
    by code_simp
  have f: "normalize_title (Str ''Zebra'') \<noteq> normalize_title (Title (hd sample_reference))"
    by code_simp
  from doi_tier_decides_first[OF sample_init a b c d e, of sample_int_float 0 "[]"]
  have "\<exists>m. process_row sample_int_float sample_dedup (0, cand_doi) [] = Inr [m]
          \<and> match_type m = ''doi'' \<and> match_status m = ''definite_match''"
    by simp
  with sample_init a b c e f show ?thesis by simp
qed

text \<open>
  Claim C1 as stated fails where the normalised DOI is empty. The candidate's DOI is one
  blank: the cell is not empty, its normalised form is the empty text, and so is that of
  the reference row, which has no DOI. The test \<^verbatim>\<open>if doi_norm and doi_norm in
  self.doi_lookup\<close> keeps the DOI tier from deciding, and the candidate ends as
  \<^verbatim>\<open>no_match\<close>.
\<close>

theorem blank_doi_is_no_doi_match:
  "init_deduplicator no_doi_reference sample_config = Inr no_doi_dedup
   \<and> doi cand_blank_doi = Some (Str '' '') \<and> truthy (Str '' '')
   \<and> normalize_doi (DOI_URL (hd no_doi_reference)) = normalize_doi (Str '' '')
   \<and> find_matches sample_int_float no_doi_dedup [(0, cand_blank_doi)]
       = Inr [initial_match_info 0 cand_blank_doi]
   \<and> match_type (initial_match_info 0 cand_blank_doi) = []
   \<and> match_status (initial_match_info 0 cand_blank_doi) = ''no_match''"
proof -
  have a: "doi cand_blank_doi = Some (Str '' '')" by (simp add: cand_blank_doi_def)
  have b: "normalize_doi (DOI_URL (hd no_doi_reference)) = normalize_doi (Str '' '')"
    by code_simp
  have c: "find_matches sample_int_float no_doi_dedup [(0, cand_blank_doi)]
       = Inr [initial_match_info 0 cand_blank_doi]"
    by code_simp
  from no_doi_init a b c show ?thesis by simp
qed

text \<open>
  Claim C2: \<^verbatim>\<open>find_matches\<close> returns a table exactly when every candidate on its own gets
  exactly one row, and then the table has these rows, one per candidate and in the
  candidates' order, each with its candidate's index label; and the loop body, where it
  returns, appends exactly one row to the rows collected so far.
\<close>

theorem one_result_row_per_candidate:
  "((find_matches pf D df = Inr rs)
      = (length rs = length df \<and> (\<forall>i<length df. process_row pf D (df ! i) [] = Inr [rs ! i])))
   \<and> (find_matches pf D df = Inr rs \<longrightarrow> map search_idx rs = map fst df)
   \<and> (process_row pf D r results = Inr results'
        \<longrightarrow> (\<exists>m. results' = results @ [m] \<and> search_idx m = fst r))"
proof -
  have a: "(find_matches pf D df = Inr rs)
      = (length rs = length df \<and> (\<forall>i<length df. process_row pf D (df ! i) [] = Inr [rs ! i]))"
    by (rule find_matches_iff)
  have b: "map search_idx rs = map fst df" if f: "find_matches pf D df = Inr rs"
  proof (rule nth_equalityI)
    from f a show "length (map search_idx rs) = length (map fst df)" by simp
  next
    fix i assume "i < length (map search_idx rs)"
    with f a have i: "i < length df" "i < length rs" by auto
    obtain idx row where p: "df ! i = (idx, row)" by (cases "df ! i")
    from f a i p have "process_row pf D (idx, row) [] = Inr [rs ! i]" by auto
    from process_row_result[OF this] have "search_idx (rs ! i) = idx" by auto
    with i p show "map search_idx rs ! i = map fst df ! i" by simp
  qed
  have c: "\<exists>m. results' = results @ [m] \<and> search_idx m = fst r"
    if p: "process_row pf D r results = Inr results'"
  proof -
    obtain idx row where r: "r = (idx, row)" by (cases r)
    from p process_row_append[of pf D r results]
    obtain one where one: "process_row pf D r [] = Inr one" "results' = results @ one"
      by (auto split: sum.splits)
    from process_row_result[of pf D idx row one] one(1) r
    obtain m where "one = [m]" "search_idx m = idx" by auto
    with one(2) r show ?thesis by simp
  qed
  from a b c show ?thesis by blast
qed

text \<open>
  An example: a batch of two candidates, the first decided by the DOI tier, the second by
  no tier.
\<close>

theorem one_result_row_per_candidate_witness:
  "find_matches sample_int_float sample_dedup [(0, cand_doi), (1, cand_empty)] =
     Inr [update_match (initial_match_info 0 cand_doi) ''definite_match'' 100 ''doi'' 0
            (sample_rows ! 0) (Text ''DOI match: 10.1377/x''),
          initial_match_info 1 cand_empty]
   \<and> map search_idx [update_match (initial_match_info 0 cand_doi) ''definite_match'' 100 ''doi'' 0
            (sample_rows ! 0) (Text ''DOI match: 10.1377/x''),
          initial_match_info 1 cand_empty] = map fst [(0 :: nat, cand_doi), (1, cand_empty)]"
proof -
  let ?rs = "[update_match (initial_match_info 0 cand_doi) ''definite_match'' 100 ''doi'' 0
            (sample_rows ! 0) (Text ''DOI match: 10.1377/x''),
          initial_match_info 1 cand_empty]"
  let ?df = "[(0 :: nat, cand_doi), (1, cand_empty)]"
  have "find_matches sample_int_float sample_dedup ?df = Inr ?rs \<longrightarrow>
        map search_idx ?rs = map fst ?df"
    by (rule one_result_row_per_candidate[of sample_int_float sample_dedup ?df ?rs
          "(0, cand_doi)" "[]" "[]", THEN conjunct2, THEN conjunct1])
  then have "map search_idx ?rs = map fst ?df" using sample_two by (rule mp)
  with sample_two show ?thesis by (rule conjI)
qed

text \<open>
  Claim C9: the batch \<open>[a, b]\<close> gives the rows \<open>ra\<close> and \<open>rb\<close> exactly when the batch
  \<open>[b, a]\<close> gives \<open>rb\<close> and \<open>ra\<close>; and a candidate (its index label and its cells) that
  stands in two batches gets the same row in both results.
\<close>

theorem batch_order_independent:
  "((find_matches pf D [a, b] = Inr [ra, rb]) = (find_matches pf D [b, a] = Inr [rb, ra]))
   \<and> (find_matches pf D df = Inr rs \<and> find_matches pf D df' = Inr rs'
        \<and> i < length df \<and> j < length df' \<and> df ! i = df' ! j \<longrightarrow> rs ! i = rs' ! j)"
proof -
  have swap: "(find_matches pf D [a, b] = Inr [ra, rb]) = (find_matches pf D [b, a] = Inr [rb, ra])"
    by (auto simp: find_matches_iff less_Suc_eq)
  have same: "rs ! i = rs' ! j"
    if "find_matches pf D df = Inr rs \<and> find_matches pf D df' = Inr rs'
        \<and> i < length df \<and> j < length df' \<and> df ! i = df' ! j"
  proof -
    from that have "process_row pf D (df ! i) [] = Inr [rs ! i]"
      "process_row pf D (df' ! j) [] = Inr [rs' ! j]" "df ! i = df' ! j"
      by (auto simp: find_matches_iff)
    then show ?thesis by simp
  qed
  from swap same show ?thesis by blast
qed

text \<open>An example: the same batch of two candidates in the other order.\<close>

theorem batch_order_independent_witness:
  "find_matches sample_int_float sample_dedup [(1, cand_empty), (0, cand_doi)] =
     Inr [initial_match_info 1 cand_empty,
          update_match (initial_match_info 0 cand_doi) ''definite_match'' 100 ''doi'' 0
            (sample_rows ! 0) (Text ''DOI match: 10.1377/x'')]"
  using batch_order_independent[of sample_int_float sample_dedup "(0, cand_doi)" "(1, cand_empty)"]
    sample_two by blast

text \<open>
  Claim C4. \<open>pf\<close> is \<^verbatim>\<open>int(float(s))\<close>, which fails on the empty text. When the candidate's
  year text and a reference row's year text both give an integer and the two integers
  differ by more than 1, the loop goes on to the next row at once (\<^verbatim>\<open>continue\<close>): the
  scan of the table with that row in front is the scan of the rest, so the row's
  similarity is never computed. When this holds for every row of the reference table, the
  candidate's result row is never one of \<^verbatim>\<open>match_type = 'title_fuzzy'\<close>, whatever its title.
\<close>

theorem fuzzy_tier_skips_distant_years:
  assumes "pf [] = Value_Error" "pf yr = Parsed y"
  shows "(pf (get_str (Publication_Year ref_row)) = Parsed r \<and> 1 < \<bar>y - r\<bar>
            \<longrightarrow> year_skip pf yr (get_str (Publication_Year ref_row)) = Inr True
              \<and> fuzzy_scan pf t yr ((ref_idx, ref_row) # rest) best = fuzzy_scan pf t yr rest best)
       \<and> (get_str (year row) = yr
          \<and> (\<forall>p\<in>set (enumerate 0 (reference_df D)).
                \<exists>r. pf (get_str (Publication_Year (snd p))) = Parsed r \<and> 1 < \<bar>y - r\<bar>)
          \<and> find_matches pf D df = Inr rs \<and> i < length df \<and> df ! i = (idx, row)
            \<longrightarrow> match_type (rs ! i) \<noteq> ''title_fuzzy'')"
proof -
  have one: "year_skip pf yr (get_str (Publication_Year ref_row)) = Inr True
              \<and> fuzzy_scan pf t yr ((ref_idx, ref_row) # rest) best = fuzzy_scan pf t yr rest best"
    if "pf (get_str (Publication_Year ref_row)) = Parsed r \<and> 1 < \<bar>y - r\<bar>"
  proof -
    from that have skip: "year_skip pf yr (get_str (Publication_Year ref_row)) = Inr True"
      using year_skip_far[OF assms] by blast
    obtain bm bs where b: "best = (bm, bs)" by (cases best)
    from skip show ?thesis by (simp add: b)
  qed
  have two: "match_type (rs ! i) \<noteq> ''title_fuzzy''"
    if h: "get_str (year row) = yr
          \<and> (\<forall>p\<in>set (enumerate 0 (reference_df D)).
                \<exists>r. pf (get_str (Publication_Year (snd p))) = Parsed r \<and> 1 < \<bar>y - r\<bar>)
          \<and> find_matches pf D df = Inr rs \<and> i < length df \<and> df ! i = (idx, row)"
  proof
    assume ty: "match_type (rs ! i) = ''title_fuzzy''"
    from h have p: "process_row pf D (idx, row) [] = Inr [rs ! i]"
      using find_matches_row by blast
    from title_fuzzy_from_fuzzy_tier[OF p ty] h
    have "fuzzy_tier pf D (normalize_title (get_or_empty (title row))) yr
            (initial_match_info idx row) = Inr (Some (rs ! i))" by simp
    moreover from h have "\<forall>p\<in>set (enumerate 0 (reference_df D)).
                \<exists>r. pf (get_str (Publication_Year (snd p))) = Parsed r \<and> 1 < \<bar>y - r\<bar>" by blast
    ultimately show False using fuzzy_tier_all_far[OF assms] by blast
  qed
  from one two show ?thesis by blast
qed

lemma sample_ref_year: "get_str (Publication_Year (sample_rows ! 0)) = ''2021''"
  by code_simp

text \<open>
  An example: the candidate has the title of the only reference row, of 2021, and the year
  2025; it ends as \<^verbatim>\<open>no_match\<close>.
\<close>

theorem fuzzy_tier_skips_distant_years_witness:
  "sample_int_float [] = Value_Error \<and> sample_int_float ''2025'' = Parsed 2025
   \<and> sample_int_float (get_str (Publication_Year (sample_rows ! 0))) = Parsed 2021
   \<and> normalize_title (get_or_empty (title cand_2025)) = title_normalized (sample_rows ! 0)
   \<and> year_skip sample_int_float ''2025'' (get_str (Publication_Year (sample_rows ! 0))) = Inr True
   \<and> find_matches sample_int_float sample_dedup [(0, cand_2025)] = Inr [initial_match_info 0 cand_2025]
   \<and> match_type ([initial_match_info 0 cand_2025] ! 0) \<noteq> ''title_fuzzy''"
proof -
  have a: "sample_int_float [] = Value_Error" by (simp add: sample_int_float_def)
  have b: "sample_int_float ''2025'' = Parsed 2025" by (simp add: sample_int_float_def)
  have c: "sample_int_float (get_str (Publication_Year (sample_rows ! 0))) = Parsed 2021"
    by (simp add: sample_ref_year sample_int_float_def)
  have d: "normalize_title (get_or_empty (title cand_2025)) = title_normalized (sample_rows ! 0)"
    by code_simp
  have far: "(1::int) < \<bar>2025 - 2021\<bar>" by simp
  have yr: "get_str (year cand_2025) = ''2025''"
    by (simp add: cand_2025_def get_str_def get_or_empty_def)
  have all: "\<forall>p\<in>set (enumerate 0 (reference_df sample_dedup)).
                \<exists>r. sample_int_float (get_str (Publication_Year (snd p))) = Parsed r \<and> 1 < \<bar>2025 - r\<bar>"
  proof
    fix p assume "p \<in> set (enumerate 0 (reference_df sample_dedup))"
    then have p: "p = (0, sample_rows ! 0)" by (simp add: sample_dedup_def sample_rows_def)
    have "sample_int_float (get_str (Publication_Year (snd p))) = Parsed 2021 \<and> 1 < \<bar>2025 - (2021::int)\<bar>"
      unfolding p snd_conv using c far by (rule conjI)
    then show "\<exists>r. sample_int_float (get_str (Publication_Year (snd p))) = Parsed r \<and> 1 < \<bar>2025 - r\<bar>"
      by (rule exI)
  qed
  note t = fuzzy_tier_skips_distant_years[OF a b, of "sample_rows ! 0" 2021
      "normalize_title (get_or_empty (title cand_2025))"
      0 "[]" "(None, 0)" cand_2025 sample_dedup "[(0, cand_2025)]" "[initial_match_info 0 cand_2025]" 0 0]
  have pq: "sample_int_float (get_str (Publication_Year (sample_rows ! 0))) = Parsed 2021 \<and> 1 < \<bar>2025 - (2021::int)\<bar>"
    using c far by (rule conjI)
  have e: "year_skip sample_int_float ''2025'' (get_str (Publication_Year (sample_rows ! 0))) = Inr True"
    using t[THEN conjunct1, THEN mp, OF pq] by (rule conjunct1)
  have i0: "(0::nat) < length [(0::nat, cand_2025)]" by simp
  have i1: "[(0::nat, cand_2025)] ! 0 = (0, cand_2025)" by simp
  have H: "get_str (year cand_2025) = ''2025''
          \<and> (\<forall>p\<in>set (enumerate 0 (reference_df sample_dedup)).
                \<exists>r. sample_int_float (get_str (Publication_Year (snd p))) = Parsed r \<and> 1 < \<bar>2025 - r\<bar>)
          \<and> find_matches sample_int_float sample_dedup [(0, cand_2025)] = Inr [initial_match_info 0 cand_2025]
          \<and> 0 < length [(0::nat, cand_2025)] \<and> [(0::nat, cand_2025)] ! 0 = (0, cand_2025)"
    by (intro conjI) (fact yr all sample_2025 i0 i1)+
  have f: "match_type ([initial_match_info 0 cand_2025] ! 0) \<noteq> ''title_fuzzy''"
    by (rule t[THEN conjunct2, THEN mp, OF H])
  show ?thesis by (intro conjI) (fact a b c d e f sample_2025)+
qed

text \<open>
  Claim C10: for a candidate without a \<^verbatim>\<open>year\<close> cell, or with the empty text there, the
  year test of the fuzzy loop never skips a row, so the scan is the plain running maximum
  of the similarity over all rows of the table; and its result row is never one of
  \<^verbatim>\<open>match_type = 'author_year'\<close>.
\<close>

theorem empty_year_no_filter_no_author_tier:
  assumes "year row = None \<or> year row = Some (Str [])"
  shows "year_skip pf (get_str (year row)) ref_year = Inr False
     \<and> fuzzy_scan pf t (get_str (year row)) refs best =
         Inr (fold (\<lambda>(ref_idx, ref_row) (best_match, best_score).
                      if best_score < calculate_title_similarity t (title_normalized ref_row)
                      then (Some ref_idx, calculate_title_similarity t (title_normalized ref_row))
                      else (best_match, best_score)) refs best)
     \<and> (find_matches pf D df = Inr rs \<and> i < length df \<and> df ! i = (idx, row)
          \<longrightarrow> match_type (rs ! i) \<noteq> ''author_year'')"
proof -
  from assms have y: "get_str (year row) = []"
    by (auto simp: get_str_def get_or_empty_def)
  have three: "match_type (rs ! i) \<noteq> ''author_year''"
    if h: "find_matches pf D df = Inr rs \<and> i < length df \<and> df ! i = (idx, row)"
  proof
    assume ty: "match_type (rs ! i) = ''author_year''"
    from h have p: "process_row pf D (idx, row) [] = Inr [rs ! i]"
      using find_matches_row by blast
    from author_year_needs_year[OF p ty] y show False by simp
  qed
  show ?thesis unfolding y using three by (simp add: fuzzy_scan_no_year)
qed

text \<open>
  An example: the candidate has no year and the title of the reference row of 2021; the
  row is scored and the fuzzy tier decides.
\<close>

theorem empty_year_no_filter_no_author_tier_witness:
  "year cand_no_year = None
   \<and> year_skip sample_int_float (get_str (year cand_no_year)) ''2021'' = Inr False
   \<and> find_matches sample_int_float sample_dedup [(0, cand_no_year)] =
       Inr [update_match (initial_match_info 0 cand_no_year) ''very_likely_match'' 100 ''title_fuzzy'' 0
              (sample_rows ! 0) (Title_similarity 100)]
   \<and> match_type ([update_match (initial_match_info 0 cand_no_year) ''very_likely_match'' 100 ''title_fuzzy'' 0
              (sample_rows ! 0) (Title_similarity 100)] ! 0) \<noteq> ''author_year''"
proof -
  let ?rs = "[update_match (initial_match_info 0 cand_no_year) ''very_likely_match'' 100 ''title_fuzzy'' 0
              (sample_rows ! 0) (Title_similarity 100)]"
  have a: "year cand_no_year = None" by (simp add: cand_no_year_def)
  then have a': "year cand_no_year = None \<or> year cand_no_year = Some (Str [])" by (rule disjI1)
  note t = empty_year_no_filter_no_author_tier[OF a', of sample_int_float "''2021''" "[]" "[]" "(None, 0)"
      sample_dedup "[(0, cand_no_year)]" ?rs 0 0]
  have b: "year_skip sample_int_float (get_str (year cand_no_year)) ''2021'' = Inr False"
    using t by (rule conjunct1)
  have i0: "(0::nat) < length [(0::nat, cand_no_year)]" by simp
  have i1: "[(0::nat, cand_no_year)] ! 0 = (0, cand_no_year)" by simp
  have H: "find_matches sample_int_float sample_dedup [(0, cand_no_year)] = Inr ?rs
       \<and> 0 < length [(0::nat, cand_no_year)] \<and> [(0::nat, cand_no_year)] ! 0 = (0, cand_no_year)"
    by (intro conjI) (fact sample_no_year i0 i1)+
  have c: "match_type (?rs ! 0) \<noteq> ''author_year''"
    by (rule t[THEN conjunct2, THEN conjunct2, THEN mp, OF H])
  show ?thesis by (intro conjI) (fact a b c sample_no_year)+
qed

subsection \<open>Exceptions\<close>

lemma normalize_title_empty: "normalize_title (Str []) = []"
  by code_simp

lemma extract_first_author_blank_text: "blank s \<Longrightarrow> extract_first_author (Str s) = Inl IndexError"
  by (simp add: extract_first_author_def first_segment_blank)

text \<open>
  Claim C3 fails on the code: a candidate without DOI and title whose author text is two
  blanks makes \<^verbatim>\<open>_extract_first_author\<close> raise IndexError, which nothing catches, so the
  whole batch ends with the exception, for every reference table and configuration.
\<close>

theorem find_matches_raises_on_blank_authors:
  "find_matches pf D [(idx, \<lparr>eid = None, doi = None, title = None, authors = Some (Str ''  ''),
                           year = None, journal = None\<rparr>)] = Inl IndexError"
proof -
  have b: "blank ''  ''" by (simp add: blank_def is_space_def)
  show ?thesis
    by (simp add: find_matches_def process_row_def doi_tier_def title_tiers_def author_tier_def
        get_or_empty_def normalize_title_empty extract_first_author_blank_text[OF b] Let_def)
qed

text \<open>
  The same happens with AttributeError when the author and year tier finds its row and
  the candidate's \<^verbatim>\<open>journal\<close> cell is NaN, which has no \<^verbatim>\<open>lower\<close> method.
\<close>

lemma find_matches_raises_on_missing_journal:
  "find_matches sample_int_float sample_dedup [(0, cand_nan_journal)] = Inl AttributeError"
  by code_simp

end
